theory Spec2Isabelle
  imports Main "HOL-Library.Word"
begin

section \<open>Data model\<close>

type_synonym byte = "8 word"

text \<open>
  The error values the reader can return. \<open>EOF\<close> and \<open>ErrUnexpectedEOF\<close> are those of
  package io, \<open>ErrProtocolError\<close> is the package's own, \<open>ErrTimeout\<close> is the deadline error
  of a connection, \<open>ErrHeader\<close> and \<open>ErrChecksum\<close> are zlib's, and \<open>ErrOther\<close> stands for
  every other error an imported package may return.
\<close>

datatype error = EOF | ErrUnexpectedEOF | ErrProtocolError | ErrTimeout
  | ErrHeader | ErrChecksum | ErrOther nat

text \<open>
  An \<open>io.Reader\<close>: the bytes it will still deliver, and the error its \<open>Read\<close> returns once
  they are used up (\<open>EOF\<close> for a stream that ends, a timeout or another error otherwise).
  The error stays: every later \<open>Read\<close> returns it again. When a call fails, the position
  it leaves its source at is not part of its result (inside a compressed frame it depends
  on how far the zlib reader has read ahead).
\<close>

record source =
  pending :: "byte list"
  final :: error

text \<open>
  Byte slices live in an explicit store: the heap is the list of all backing arrays, an
  address is an index into it, and \<open>make\<close> or a copying \<open>append\<close> adds a new array at
  the end. A slice is its backing array and its length (all slices here start at offset 0).
\<close>

record slice =
  arr :: nat
  len :: nat

datatype chan = Open | Closed

record world =
  heap :: "byte list list"
  chans :: "chan list"

definition deref :: "world \<Rightarrow> slice \<Rightarrow> byte list" where
  "deref w s = take (len s) (heap w ! arr s)"

datatype certificate = Certificate nat

text \<open>
  \<open>net.Conn\<close>, as far as the reader looks at it: whether it is a \<open>*tls.Conn\<close> (then
  \<open>verifiedChains\<close> is \<open>ConnectionState().VerifiedChains\<close>), the read deadline
  (\<open>None\<close> is the zero \<open>time.Time\<close>), and the error \<open>SetReadDeadline\<close> returns.
\<close>

record conn =
  verifiedChains :: "certificate list list option"
  readDeadline :: "int option"
  setDeadlineErr :: "error option"

definition SetReadDeadline :: "conn \<Rightarrow> int option \<Rightarrow> error option \<times> conn" where
  "SetReadDeadline c t =
     (case setDeadlineErr c of
        Some err \<Rightarrow> (Some err, c)
      | None \<Rightarrow> (None, c\<lparr>readDeadline := t\<rparr>))"

text \<open>
  The struct \<open>reader\<close>. Its field \<open>in\<close> (the \<open>bufio.Reader\<close> on the connection) is the
  \<open>source\<close> that the functions below take and return explicitly, the way \<open>readEvents\<close>
  takes it as its argument \<open>in\<close>.
\<close>

record reader =
  conn :: conn
  timeout :: int
  decoder :: "byte list \<Rightarrow> error option"
  buf :: slice

record batch =
  Events :: "slice list"
  ack :: nat
  ClientX509Cert :: "certificate option"

text \<open>
  What the reader imports and src/ does not hold: the four constants of package
  protocol/v2, and package zlib. \<open>zlib_NewReader\<close> maps the compressed bytes it is given
  to read to an error or to the reader of the decompressed bytes; \<open>zlib_Close\<close> is the
  result of \<open>Close\<close> on that reader after the given number of decompressed bytes was read.
\<close>

record env =
  CodeVersion :: byte
  CodeWindowSize :: byte
  CodeJSONDataFrame :: byte
  CodeCompressed :: byte
  zlib_NewReader :: "source \<Rightarrow> error + source"
  zlib_Close :: "source \<Rightarrow> nat \<Rightarrow> error option"

section \<open>Package lj\<close>

definition NewBatch :: "slice list \<Rightarrow> certificate option \<Rightarrow> world \<Rightarrow> batch \<times> world" where
  "NewBatch evts clientX509Cert w =
     (\<lparr>Events = evts, ack = length (chans w), ClientX509Cert = clientX509Cert\<rparr>,
      w\<lparr>chans := chans w @ [Open]\<rparr>)"

datatype panic = CloseOfClosedChannel | CloseOfNilChannel

text \<open>\<open>close(b.ack)\<close>: Go panics when the channel is closed already (or is not a channel).\<close>

definition ACK :: "batch \<Rightarrow> world \<Rightarrow> panic + world" where
  "ACK b w =
     (if ack b < length (chans w) then
        (case chans w ! ack b of
           Closed \<Rightarrow> Inl CloseOfClosedChannel
         | Open \<Rightarrow> Inr (w\<lparr>chans := (chans w)[ack b := Closed]\<rparr>))
      else Inl CloseOfNilChannel)"

definition Await :: "batch \<Rightarrow> nat" where
  "Await b = ack b"

text \<open>
  A receive from the channel \<open>Await\<close> returns. Nothing is ever sent on it (the field is
  private to the package, which only closes it, and \<open>Await\<close> hands out the receiving end
  alone), so a receive completes exactly when the channel is closed.
\<close>

definition completes :: "world \<Rightarrow> nat \<Rightarrow> bool" where
  "completes w c = (c < length (chans w) \<and> chans w ! c = Closed)"

section \<open>The reader\<close>

text \<open>
  \<open>io.ReadFull\<close> for \<open>n\<close> bytes: the bytes it stored, its error, and the reader afterwards.
  On a reader that runs out it stores what there is and returns the reader's error, with
  \<open>ErrUnexpectedEOF\<close> in place of an \<open>EOF\<close> that comes after some bytes. For \<open>n = 0\<close> it
  reads nothing and succeeds.
\<close>

definition readFull :: "source \<Rightarrow> nat \<Rightarrow> byte list \<times> error option \<times> source" where
  "readFull inp n =
     (if n \<le> length (pending inp)
      then (take n (pending inp), None, inp\<lparr>pending := drop n (pending inp)\<rparr>)
      else (pending inp,
            Some (if final inp = EOF \<and> pending inp \<noteq> [] then ErrUnexpectedEOF else final inp),
            inp\<lparr>pending := []\<rparr>))"

text \<open>
  \<open>binary.BigEndian.Uint32\<close> of (at least) four bytes; the reader converts it to an \<open>int\<close>
  of 64 bits, which holds every such value.
\<close>

definition BigEndian_Uint32 :: "byte list \<Rightarrow> nat" where
  "BigEndian_Uint32 b =
     unat (b ! 0) * 16777216 + unat (b ! 1) * 65536 + unat (b ! 2) * 256 + unat (b ! 3)"

definition newReader :: "conn \<Rightarrow> int \<Rightarrow> (byte list \<Rightarrow> error option) \<Rightarrow> world \<Rightarrow> reader \<times> world" where
  "newReader c to jsonDecoder w =
     (\<lparr>conn = c, timeout = to, decoder = jsonDecoder,
       buf = \<lparr>arr = length (heap w), len = 0\<rparr>\<rparr>,
      w\<lparr>heap := heap w @ [replicate 64 0]\<rparr>)"

text \<open>
  \<open>readJSONEvent\<close> replaces the buffer by a new array when the payload is longer than the
  buffer, reads the payload into the front of the buffer (a read that fails leaves there
  the bytes it got), and returns a copy of it in a new array. (For a payload of no bytes
  Go's \<open>append\<close> returns the nil slice; here it is an empty array of its own.)
\<close>

definition readJSONEvent ::
  "source \<Rightarrow> reader \<Rightarrow> world \<Rightarrow> (error + slice \<times> source) \<times> reader \<times> world" where
  "readJSONEvent inp r w =
     (case readFull inp 8 of
        (hdr, Some err, inp1) \<Rightarrow> (Inl err, r, w)
      | (hdr, None, inp1) \<Rightarrow>
          let payloadSz = BigEndian_Uint32 (drop 4 hdr);
              (r1, w1) =
                (if payloadSz > len (buf r)
                 then (r\<lparr>buf := \<lparr>arr = length (heap w), len = payloadSz\<rparr>\<rparr>,
                       w\<lparr>heap := heap w @ [replicate payloadSz 0]\<rparr>)
                 else (r, w));
              a = arr (buf r1);
              (data, e, inp2) = readFull inp1 payloadSz;
              w2 = w1\<lparr>heap := (heap w1)[a := data @ drop (length data) (heap w1 ! a)]\<rparr>
          in (case e of
                Some err \<Rightarrow> (Inl err, r1, w2)
              | None \<Rightarrow>
                  (Inr (\<lparr>arr = length (heap w2), len = payloadSz\<rparr>, inp2), r1,
                   w2\<lparr>heap := heap w2 @ [take payloadSz (heap w2 ! a)]\<rparr>)))"

text \<open>
  \<open>io.LimitReader\<close> and the loop at the end of \<open>readCompressed\<close> that consumes its final
  bytes, 16 at a time, until its \<open>Read\<close> returns an error; \<open>EOF\<close> ends the loop without an
  error, whether it is the limit's own or that of the reader underneath.
\<close>

record limitedReader =
  R :: source
  N :: nat

definition limit_Read :: "limitedReader \<Rightarrow> nat \<Rightarrow> byte list \<times> error option \<times> limitedReader" where
  "limit_Read l k =
     (if N l = 0 then ([], Some EOF, l)
      else if pending (R l) = [] then ([], Some (final (R l)), l)
      else let p = take (min k (N l)) (pending (R l))
           in (p, None, \<lparr>R = (R l)\<lparr>pending := drop (length p) (pending (R l))\<rparr>,
                         N = N l - length p\<rparr>))"

function consume_final :: "limitedReader \<Rightarrow> error + source" where
  "consume_final l =
     (case limit_Read l 16 of
        (tmp, Some err, l1) \<Rightarrow> if err \<noteq> EOF then Inl err else Inr (R l1)
      | (tmp, None, l1) \<Rightarrow> consume_final l1)"
  by pat_completeness auto
termination
proof (relation "measure N")
  show "wf (measure N)" by simp
next
  fix l :: limitedReader and tmp y e l1
  assume "(tmp, y) = limit_Read l 16" "(e, l1) = y" "e = None"
  then have lr: "limit_Read l 16 = (tmp, None, l1)" by simp
  then have "N l \<noteq> 0" "pending (R l) \<noteq> []"
    by (auto simp: limit_Read_def split: if_splits)
  moreover from this lr have "N l1 = N l - length (take (min 16 (N l)) (pending (R l)))"
    by (auto simp: limit_Read_def Let_def)
  ultimately have "N l1 < N l" by (cases "pending (R l)") auto
  then show "(l1, l) \<in> measure N" by simp
qed

declare consume_final.simps [simp del]

text \<open>What a reader of \<open>limit\<close> sees: at most \<open>N\<close> bytes of \<open>R\<close>, then \<open>EOF\<close>.\<close>

definition limit_view :: "limitedReader \<Rightarrow> source" where
  "limit_view l =
     \<lparr>pending = take (N l) (pending (R l)),
      final = (if N l \<le> length (pending (R l)) then EOF else final (R l))\<rparr>"

text \<open>
  \<open>readEvents\<close> and \<open>readCompressed\<close> call each other, as deep as compressed frames are
  nested in the input. The first argument bounds the depth of the calls (a turn of the
  loop counts as a call); \<open>None\<close> says the bound was too small. \<open>cap\<close> is the capacity of
  the slice \<open>events\<close>: \<open>append\<close> runs only below it, so it never changes.

  In \<open>readCompressed\<close> the zlib reader reads from \<open>limit\<close> as far ahead as it likes. How far
  is not modelled: the loop that follows consumes \<open>limit\<close> to its end in any case, so it is
  run here from the start of \<open>limit\<close>.
\<close>

fun readEvents ::
  "nat \<Rightarrow> env \<Rightarrow> source \<Rightarrow> slice list \<Rightarrow> nat \<Rightarrow> reader \<Rightarrow> world
     \<Rightarrow> ((error + slice list \<times> source) \<times> reader \<times> world) option"
and readCompressed ::
  "nat \<Rightarrow> env \<Rightarrow> source \<Rightarrow> slice list \<Rightarrow> nat \<Rightarrow> reader \<Rightarrow> world
     \<Rightarrow> ((error + slice list \<times> source) \<times> reader \<times> world) option"
where
  "readEvents 0 E inp events cap r w = None"
| "readEvents (Suc n) E inp events cap r w =
     (if length events < cap then
        (case readFull inp 2 of
           (hdr, Some err, inp1) \<Rightarrow> Some (Inl err, r, w)
         | (hdr, None, inp1) \<Rightarrow>
             if hdr ! 0 \<noteq> CodeVersion E then Some (Inl ErrProtocolError, r, w)
             else if hdr ! 1 = CodeJSONDataFrame E then
               (case readJSONEvent inp1 r w of
                  (Inl err, r1, w1) \<Rightarrow> Some (Inl err, r1, w1)
                | (Inr (event, inp2), r1, w1) \<Rightarrow>
                    readEvents n E inp2 (events @ [event]) cap r1 w1)
             else if hdr ! 1 = CodeCompressed E then
               (case readCompressed n E inp1 events cap r w of
                  None \<Rightarrow> None
                | Some (Inl err, r1, w1) \<Rightarrow> Some (Inl err, r1, w1)
                | Some (Inr (readEvents1, inp2), r1, w1) \<Rightarrow>
                    readEvents n E inp2 readEvents1 cap r1 w1)
             else Some (Inl ErrProtocolError, r, w))
      else Some (Inr (events, inp), r, w))"
| "readCompressed 0 E inp events cap r w = None"
| "readCompressed (Suc n) E inp events cap r w =
     (case readFull inp 4 of
        (hdr, Some err, inp1) \<Rightarrow> Some (Inl err, r, w)
      | (hdr, None, inp1) \<Rightarrow>
          let payloadSz = BigEndian_Uint32 hdr;
              limit = \<lparr>R = inp1, N = payloadSz\<rparr>
          in (case zlib_NewReader E (limit_view limit) of
               Inl err \<Rightarrow> Some (Inl err, r, w)
             | Inr zr \<Rightarrow>
                 (case readEvents n E zr events cap r w of
                    None \<Rightarrow> None
                  | Some (Inl err, r1, w1) \<Rightarrow> Some (Inl err, r1, w1)
                  | Some (Inr (events1, zr1), r1, w1) \<Rightarrow>
                      (case zlib_Close E (limit_view limit)
                              (length (pending zr) - length (pending zr1)) of
                         Some err \<Rightarrow> Some (Inl err, r1, w1)
                       | None \<Rightarrow>
                           (case consume_final limit of
                              Inl err \<Rightarrow> Some (Inl err, r1, w1)
                            | Inr inp2 \<Rightarrow> Some (Inr (events1, inp2), r1, w1))))))"

text \<open>
  \<open>ReadBatch\<close>; \<open>now\<close> is the value of \<open>time.Now()\<close>. The result is the error, or the batch
  (\<open>None\<close> for a window of count 0) with the source behind it.
\<close>

definition ReadBatch ::
  "nat \<Rightarrow> env \<Rightarrow> int \<Rightarrow> source \<Rightarrow> reader \<Rightarrow> world
     \<Rightarrow> ((error + batch option \<times> source) \<times> reader \<times> world) option" where
  "ReadBatch fuel E now inp r w =
     (let r0 = r\<lparr>conn := snd (SetReadDeadline (conn r) None)\<rparr>
      in case readFull inp 6 of
           (win, Some err, inp1) \<Rightarrow> Some (Inl err, r0, w)
         | (win, None, inp1) \<Rightarrow>
             if win ! 0 \<noteq> CodeVersion E \<and> win ! 1 \<noteq> CodeWindowSize E
             then Some (Inl ErrProtocolError, r0, w)
             else let count = BigEndian_Uint32 (drop 2 win)
               in if count = 0 then Some (Inr (None, inp1), r0, w)
                  else (case SetReadDeadline (conn r0) (Some (now + timeout r0)) of
                          (Some err, c1) \<Rightarrow> Some (Inl err, r0\<lparr>conn := c1\<rparr>, w)
                        | (None, c1) \<Rightarrow>
                            (case readEvents fuel E inp1 [] count (r0\<lparr>conn := c1\<rparr>) w of
                               None \<Rightarrow> None
                             | Some (Inl err, r2, w2) \<Rightarrow> Some (Inl err, r2, w2)
                             | Some (Inr (events, inp2), r2, w2) \<Rightarrow>
                                 let clientX509Cert =
                                       (case verifiedChains (conn r2) of
                                          Some vchains \<Rightarrow>
                                            if length vchains = 1 \<and> length (vchains ! 0) = 2
                                            then Some (vchains ! 0 ! 0) else None
                                        | None \<Rightarrow> None);
                                     (b, w3) = NewBatch events clientX509Cert w2
                                 in Some (Inr (Some b, inp2), r2, w3))))"

section \<open>Streams on the wire\<close>

definition PutUint32 :: "nat \<Rightarrow> byte list" where
  "PutUint32 n =
     [of_nat (n div 16777216 mod 256), of_nat (n div 65536 mod 256), of_nat (n div 256 mod 256),
      of_nat (n mod 256)]"

text \<open>
  A frame as a client writes it: a data frame with its sequence number and payload, or a
  compressed frame with its compressed bytes and the frames they hold.
\<close>

datatype frame = DataFrame nat "byte list" | CompressedFrame "byte list" "frame list"

fun encode_frame :: "env \<Rightarrow> frame \<Rightarrow> byte list" where
  "encode_frame E (DataFrame seq p) =
     [CodeVersion E, CodeJSONDataFrame E] @ PutUint32 seq @ PutUint32 (length p) @ p"
| "encode_frame E (CompressedFrame c fs) =
     [CodeVersion E, CodeCompressed E] @ PutUint32 (length c) @ c"

definition encode_frames :: "env \<Rightarrow> frame list \<Rightarrow> byte list" where
  "encode_frames E fs = concat (map (encode_frame E) fs)"

definition window_frame :: "env \<Rightarrow> nat \<Rightarrow> byte list" where
  "window_frame E count = [CodeVersion E, CodeWindowSize E] @ PutUint32 count"

fun payloads :: "frame \<Rightarrow> byte list list" where
  "payloads (DataFrame seq p) = [p]"
| "payloads (CompressedFrame c fs) = concat (map payloads fs)"

text \<open>
  A frame is well formed when its lengths fit their 32-bit fields and, for a compressed
  frame, the zlib reader turns its bytes into exactly the frames it holds and closes
  without an error.
\<close>

fun well_formed :: "env \<Rightarrow> frame \<Rightarrow> bool" where
  "well_formed E (DataFrame seq p) = (length p < 4294967296)"
| "well_formed E (CompressedFrame c fs) =
     (length c < 4294967296
      \<and> zlib_NewReader E \<lparr>pending = c, final = EOF\<rparr>
          = Inr \<lparr>pending = concat (map (encode_frame E) fs), final = EOF\<rparr>
      \<and> (\<forall>k \<in> {..length (concat (map (encode_frame E) fs))}.
            zlib_Close E \<lparr>pending = c, final = EOF\<rparr> k = None)
      \<and> list_all (well_formed E) fs)"

text \<open>
  The streams the reader decodes: data frames, then at most one compressed frame, which
  is the last frame at its level, brings at least one event, and holds frames of the same
  shape.
\<close>

fun compressed_last :: "frame list \<Rightarrow> bool" where
  "compressed_last [] = True"
| "compressed_last (DataFrame seq p # fs) = compressed_last fs"
| "compressed_last (CompressedFrame c gs # fs) =
     (fs = [] \<and> compressed_last gs \<and> concat (map payloads gs) \<noteq> [])"

text \<open>The depth of calls \<open>readEvents\<close> needs on such a stream.\<close>

fun calls :: "frame list \<Rightarrow> nat" where
  "calls [] = 1"
| "calls (DataFrame seq p # fs) = Suc (calls fs)"
| "calls (CompressedFrame c gs # fs) = Suc (Suc (calls gs)) + calls fs"

text \<open>What a caller gets out of \<open>ReadBatch\<close>: the error, or the payloads of the batch.\<close>

definition decoded ::
  "((error + batch option \<times> source) \<times> reader \<times> world) option
     \<Rightarrow> (error + byte list list option) option" where
  "decoded res =
     (case res of
        None \<Rightarrow> None
      | Some (Inl err, r, w) \<Rightarrow> Some (Inl err)
      | Some (Inr (None, inp), r, w) \<Rightarrow> Some (Inr None)
      | Some (Inr (Some b, inp), r, w) \<Rightarrow> Some (Inr (Some (map (deref w) (Events b)))))"

text \<open>The bytes a call leaves unread in its source, when it returns without an error.\<close>

definition left_over ::
  "((error + 'a \<times> source) \<times> reader \<times> world) option \<Rightarrow> (error + byte list) option" where
  "left_over res =
     (case res of
        None \<Rightarrow> None
      | Some (Inl err, r, w) \<Rightarrow> Some (Inl err)
      | Some (Inr (x, inp), r, w) \<Rightarrow> Some (Inr (pending inp)))"

text \<open>Calling \<open>ACK\<close> on each batch of a list, in order, up to the first panic.\<close>

fun acks :: "batch list \<Rightarrow> world \<Rightarrow> panic + world" where
  "acks [] w = Inr w"
| "acks (b # bs) w = (case ACK b w of Inl p \<Rightarrow> Inl p | Inr w1 \<Rightarrow> acks bs w1)"

text \<open>The buffer of a reader is an array of the heap, at least as long as the slice.\<close>

definition buf_ok :: "reader \<Rightarrow> world \<Rightarrow> bool" where
  "buf_ok r w = (arr (buf r) < length (heap w) \<and> len (buf r) \<le> length (heap w ! arr (buf r)))"

text \<open>
  How a call may change the reader and the heap: the buffer stays an array of the heap and
  never gets shorter, arrays are only added, and of the arrays that were there only the
  buffer's own may change. \<open>fresh\<close> says of the payloads a call hands out that each is an
  array of its own, added by the call, that is not the buffer and is no longer than it.
\<close>

definition grows :: "reader \<Rightarrow> world \<Rightarrow> reader \<Rightarrow> world \<Rightarrow> bool" where
  "grows r w r' w' =
     (buf_ok r' w' \<and> len (buf r) \<le> len (buf r') \<and> length (heap w) \<le> length (heap w')
      \<and> (arr (buf r') = arr (buf r) \<or> length (heap w) \<le> arr (buf r'))
      \<and> (\<forall>a < length (heap w). a \<noteq> arr (buf r) \<longrightarrow> heap w' ! a = heap w ! a)
      \<and> chans w' = chans w)"

definition fresh :: "world \<Rightarrow> reader \<Rightarrow> world \<Rightarrow> slice list \<Rightarrow> bool" where
  "fresh w r' w' new =
     ((\<forall>e \<in> set new. length (heap w) \<le> arr e \<and> arr e < length (heap w')
          \<and> arr e \<noteq> arr (buf r') \<and> len e \<le> len (buf r'))
      \<and> distinct (map arr new))"

definition post ::
  "reader \<Rightarrow> world \<Rightarrow> slice list \<Rightarrow> (error + slice list \<times> source) \<Rightarrow> reader \<Rightarrow> world \<Rightarrow> bool" where
  "post r w evs res r' w' =
     (grows r w r' w' \<and>
      (case res of
         Inl err \<Rightarrow> True
       | Inr (evs', inp') \<Rightarrow> (\<exists>new. evs' = evs @ new \<and> fresh w r' w' new)))"

section \<open>A concrete environment\<close>

text \<open>
  A stand-in for package compress/zlib, for the examples only; the general statements
  take the two functions of the package as parameters. It is the zlib format restricted to
  stored (uncompressed) deflate blocks, after RFC 1950 and RFC 1951: a two-byte header,
  the blocks, and the Adler-32 checksum of the decompressed bytes. It agrees with the
  package on complete streams of stored blocks. It differs from it elsewhere: every other
  block type, which the package decodes, is reported as an error here.
\<close>

fun adler32_step :: "nat \<times> nat \<Rightarrow> byte \<Rightarrow> nat \<times> nat" where
  "adler32_step (a, b) x = ((a + unat x) mod 65521, (b + (a + unat x) mod 65521) mod 65521)"

definition adler32 :: "byte list \<Rightarrow> nat" where
  "adler32 bs = (case foldl adler32_step (1, 0) bs of (a, b) \<Rightarrow> b * 65536 + a)"

definition eof_error :: "error \<Rightarrow> error" where
  "eof_error e = (if e = EOF then ErrUnexpectedEOF else e)"

function stored_blocks :: "byte list \<Rightarrow> error \<Rightarrow> byte list \<times> (error + byte list)" where
  "stored_blocks bs fin =
     (case bs of
        [] \<Rightarrow> ([], Inl (eof_error fin))
      | h # t \<Rightarrow>
          if unat h div 2 mod 4 = 0 then
            if 4 \<le> length t then
              if unat (t ! 2) + 256 * unat (t ! 3) = 65535 - (unat (t ! 0) + 256 * unat (t ! 1)) then
                if unat (t ! 0) + 256 * unat (t ! 1) \<le> length (drop 4 t) then
                  if unat h mod 2 = 1
                  then (take (unat (t ! 0) + 256 * unat (t ! 1)) (drop 4 t),
                        Inr (drop (unat (t ! 0) + 256 * unat (t ! 1)) (drop 4 t)))
                  else (case stored_blocks (drop (unat (t ! 0) + 256 * unat (t ! 1)) (drop 4 t)) fin of
                          (out, res) \<Rightarrow> (take (unat (t ! 0) + 256 * unat (t ! 1)) (drop 4 t) @ out, res))
                else (drop 4 t, Inl (eof_error fin))
              else ([], Inl (ErrOther 1))
            else ([], Inl (eof_error fin))
          else ([], Inl (ErrOther 0)))"
  by pat_completeness auto
termination
  by (relation "measure (\<lambda>(bs, fin). length bs)") auto

declare stored_blocks.simps [simp del]

definition zlib_stored_NewReader :: "source \<Rightarrow> error + source" where
  "zlib_stored_NewReader v =
     (case readFull v 2 of
        (hdr, Some err, v1) \<Rightarrow> Inl (eof_error err)
      | (hdr, None, v1) \<Rightarrow>
          if unat (hdr ! 0) mod 16 = 8 then
            if unat (hdr ! 0) div 16 \<le> 7 then
              if (unat (hdr ! 0) * 256 + unat (hdr ! 1)) mod 31 = 0 then
                if unat (hdr ! 1) div 32 mod 2 = 0 then
                  (case stored_blocks (pending v1) (final v1) of
                     (out, Inl err) \<Rightarrow> Inr \<lparr>pending = out, final = err\<rparr>
                   | (out, Inr rest) \<Rightarrow>
                       Inr \<lparr>pending = out,
                            final = (if length rest < 4 then eof_error (final v1)
                                     else if BigEndian_Uint32 rest = adler32 out then EOF
                                     else ErrChecksum)\<rparr>)
                else Inl (ErrOther 2)
              else Inl ErrHeader
            else Inl ErrHeader
          else Inl ErrHeader)"

text \<open>
  \<open>Close\<close> returns the error the reader ran into, if it was read up to it. This too is a
  stand-in: the reader of the package may read ahead of what was asked of it, and then
  its \<open>Close\<close> reports an error that lies behind the bytes that were read.
\<close>

definition zlib_stored_Close :: "source \<Rightarrow> nat \<Rightarrow> error option" where
  "zlib_stored_Close v k =
     (case zlib_stored_NewReader v of
        Inl err \<Rightarrow> None
      | Inr zr \<Rightarrow> if length (pending zr) \<le> k \<and> final zr \<noteq> EOF then Some (final zr) else None)"

text \<open>
  Modelled from the spec: the constants of package protocol/v2 are not under src/. The
  spec names a version marker and the window-size, data-frame and compressed-frame
  types; the values are those of the lumberjack protocol, version 2: the characters
  2, W, J and C.
\<close>

definition lumberjack_v2 :: env where
  "lumberjack_v2 =
     \<lparr>CodeVersion = 0x32, CodeWindowSize = 0x57, CodeJSONDataFrame = 0x4A, CodeCompressed = 0x43,
      zlib_NewReader = zlib_stored_NewReader, zlib_Close = zlib_stored_Close\<rparr>"

text \<open>The stored-block zlib stream of some bytes (fewer than 65536), in one final block.\<close>

definition zlib_store :: "byte list \<Rightarrow> byte list" where
  "zlib_store d =
     [0x78, 0x01, 0x01, of_nat (length d mod 256), of_nat (length d div 256 mod 256),
      of_nat (255 - length d mod 256), of_nat (255 - length d div 256 mod 256)]
     @ d @ PutUint32 (adler32 d)"

text \<open>A plain connection, a reader made by \<open>newReader\<close> on it, and the payload \<open>{"a":1}\<close>.\<close>

definition tcp :: conn where
  "tcp = \<lparr>verifiedChains = None, readDeadline = None, setDeadlineErr = None\<rparr>"

definition w0 :: world where
  "w0 = snd (newReader tcp 30 (\<lambda>b. None) \<lparr>heap = [], chans = []\<rparr>)"

definition r0 :: reader where
  "r0 = fst (newReader tcp 30 (\<lambda>b. None) \<lparr>heap = [], chans = []\<rparr>)"

definition a1 :: "byte list" where
  "a1 = [0x7B, 0x22, 0x61, 0x22, 0x3A, 0x31, 0x7D]"

section \<open>Basic facts\<close>

lemma length_PutUint32 [simp]: "length (PutUint32 n) = 4"
  by (simp add: PutUint32_def)

lemma unat_byte [simp]: "unat (of_nat k :: byte) = k mod 256"
  by (simp add: unat_of_nat)

lemma unat_byte_compl [simp]: "k < 256 \<Longrightarrow> unat (255 - of_nat k :: byte) = 255 - k"
proof -
  assume k: "k < 256"
  have "(255 - of_nat k :: byte) = of_nat (255 - k)" using k by simp
  then have "unat (255 - of_nat k :: byte) = (255 - k) mod 256" by (simp only: unat_byte)
  then show ?thesis using k by simp
qed

lemma Uint32_digits:
  assumes "n < 4294967296"
  shows "n div 16777216 mod 256 * 16777216 + n div 65536 mod 256 * 65536
           + n div 256 mod 256 * 256 + n mod 256 = (n::nat)"
proof -
  define q1 q2 q3 where "q1 = n div 256" and "q2 = n div 65536" and "q3 = n div 16777216"
  define d0 d1 d2 where "d0 = n mod 256" and "d1 = q1 mod 256" and "d2 = q2 mod 256"
  have e1: "q1 * 256 + d0 = n" by (simp add: q1_def d0_def)
  have "q1 div 256 = q2" by (simp add: q1_def q2_def div_mult2_eq)
  then have e2: "q2 * 256 + d1 = q1" using div_mult_mod_eq [of q1 256] by (simp add: d1_def)
  have "q2 div 256 = q3" by (simp add: q2_def q3_def div_mult2_eq)
  then have e3: "q3 * 256 + d2 = q2" using div_mult_mod_eq [of q2 256] by (simp add: d2_def)
  have "q3 < 256" using assms by (simp add: q3_def)
  then have e4: "q3 mod 256 = q3" by simp
  have "q3 * 16777216 + d2 * 65536 + d1 * 256 + d0 = n"
    using e1 e2 e3 by linarith
  then show ?thesis
    unfolding q1_def [symmetric] q2_def [symmetric] q3_def [symmetric] e4 d0_def [symmetric]
      d1_def [symmetric] d2_def [symmetric] .
qed

lemma Uint32_PutUint32:
  "n < 4294967296 \<Longrightarrow> BigEndian_Uint32 (PutUint32 n @ xs) = n"
  using Uint32_digits [of n]
  by (simp add: BigEndian_Uint32_def PutUint32_def del: mod_less)

lemma adler32_step_bound:
  "a < 65521 \<Longrightarrow> b < 65521 \<Longrightarrow>
     fst (foldl adler32_step (a, b) bs) < 65521 \<and> snd (foldl adler32_step (a, b) bs) < 65521"
  by (induction bs arbitrary: a b) simp_all

lemma adler32_bound: "adler32 bs < 4294967296"
proof -
  obtain a b where ab: "foldl adler32_step (1, 0) bs = (a, b)" by (cases "foldl adler32_step (1, 0) bs")
  then have "a < 65521 \<and> b < 65521" using adler32_step_bound [of 1 0 bs] by simp
  then show ?thesis using ab by (simp add: adler32_def)
qed

lemma len16_digits:
  assumes "n < 65536"
  shows "n mod 256 + 256 * (n div 256 mod 256) = (n::nat)"
    and "n mod 256 + 256 * (n div 256 mod 256) + (255 - n mod 256) + 256 * (255 - n div 256 mod 256) = 65535"
proof -
  have "n div 256 < 256" using assms by simp
  then have m: "n div 256 mod 256 = n div 256" by simp
  show 1: "n mod 256 + 256 * (n div 256 mod 256) = n" unfolding m by simp
  have "n mod 256 < 256" by simp
  then have "n mod 256 + (255 - n mod 256) = 255" by linarith
  moreover have "256 * (n div 256) + 256 * (255 - n div 256) = 65280" using \<open>n div 256 < 256\<close> by linarith
  ultimately show "n mod 256 + 256 * (n div 256 mod 256) + (255 - n mod 256) + 256 * (255 - n div 256 mod 256) = 65535"
    unfolding m by linarith
qed

lemma nlen_arith:
  assumes "n < 65536"
  shows "255 + 256 * (255 - n div 256) - n mod 256 = 65535 - (n::nat)"
proof -
  define q r where "q = n div 256" and "r = n mod 256"
  have n: "n = 256 * q + r" by (simp add: q_def r_def)
  have "q < 256" "r < 256" using assms by (simp_all add: q_def r_def)
  then have "255 + 256 * (255 - q) - r = 65535 - (256 * q + r)" by linarith
  then show ?thesis unfolding q_def r_def by (simp only: mult_div_mod_eq)
qed

lemma zlib_store_inflates:
  assumes "length d < 65536"
  shows "zlib_stored_NewReader \<lparr>pending = zlib_store d, final = EOF\<rparr> = Inr \<lparr>pending = d, final = EOF\<rparr>"
proof -
  let ?n = "length d"
  let ?t = "[of_nat (?n mod 256), of_nat (?n div 256 mod 256),
      of_nat (255 - ?n mod 256), of_nat (255 - ?n div 256 mod 256)] @ d @ PutUint32 (adler32 d) :: byte list"
  have l: "unat (of_nat (?n mod 256) :: byte) + 256 * unat (of_nat (?n div 256 mod 256) :: byte) = ?n"
    using len16_digits(1) [OF assms] by simp
  have nl: "unat (of_nat (255 - ?n mod 256) :: byte) + 256 * unat (of_nat (255 - ?n div 256 mod 256) :: byte)
       = 65535 - ?n"
    using len16_digits [OF assms] by simp
  have sb: "stored_blocks (1 # ?t) EOF = (d, Inr (PutUint32 (adler32 d)))"
    apply (subst stored_blocks.simps)
    apply (simp only: list.case nth_Cons_0 nth_Cons_Suc append_Cons append_Nil l nl
        One_nat_def [symmetric] numeral_2_eq_2 [symmetric] numeral_3_eq_3 [symmetric])
    using assms nlen_arith [of "length d"] apply simp
    done
  have ad: "BigEndian_Uint32 (PutUint32 (adler32 d)) = adler32 d"
    using Uint32_PutUint32 [OF adler32_bound, of d "[]"] by simp
  show ?thesis
    using sb ad by (simp add: zlib_stored_NewReader_def zlib_store_def readFull_def)
qed

lemma length_zlib_store [simp]: "length (zlib_store d) = length d + 11"
  by (simp add: zlib_store_def)

lemma zlib_store_Close:
  "length d < 65536 \<Longrightarrow> zlib_stored_Close \<lparr>pending = zlib_store d, final = EOF\<rparr> k = None"
  by (simp add: zlib_stored_Close_def zlib_store_inflates)

lemma consume_final_eq:
  "consume_final l =
     (if N l \<le> length (pending (R l)) then Inr ((R l)\<lparr>pending := drop (N l) (pending (R l))\<rparr>)
      else if final (R l) = EOF then Inr ((R l)\<lparr>pending := []\<rparr>) else Inl (final (R l)))"
proof (induction l rule: consume_final.induct)
  case (1 l)
  show ?case
  proof (cases "N l = 0")
    case True
    then show ?thesis by (subst consume_final.simps) (simp add: limit_Read_def)
  next
    case n0: False
    show ?thesis
    proof (cases "pending (R l) = []")
      case True
      with n0 show ?thesis by (subst consume_final.simps) (simp add: limit_Read_def)
    next
      case False
      define p where "p = take (min 16 (N l)) (pending (R l))"
      define l1 where "l1 = \<lparr>R = (R l)\<lparr>pending := drop (length p) (pending (R l))\<rparr>, N = N l - length p\<rparr>"
      have lr: "limit_Read l 16 = (p, None, l1)"
        using n0 False by (simp add: limit_Read_def p_def l1_def Let_def)
      have lp: "0 < length p" "length p \<le> N l" "length p \<le> length (pending (R l))"
        using n0 False by (auto simp: p_def)
      have lt: "N l1 < N l" using n0 lp unfolding l1_def by (cases p) auto
      have ih: "consume_final l1 =
         (if N l1 \<le> length (pending (R l1)) then Inr ((R l1)\<lparr>pending := drop (N l1) (pending (R l1))\<rparr>)
          else if final (R l1) = EOF then Inr ((R l1)\<lparr>pending := []\<rparr>) else Inl (final (R l1)))"
        using "1.IH" [OF lr [symmetric] refl refl] .
      have "consume_final l = consume_final l1"
        by (subst consume_final.simps) (simp add: lr)
      also note ih
      finally show ?thesis using lp by (auto simp: l1_def)
    qed
  qed
qed

lemma readFull_append:
  "length xs = n \<Longrightarrow>
     readFull \<lparr>pending = xs @ rest, final = fin\<rparr> n = (xs, None, \<lparr>pending = rest, final = fin\<rparr>)"
  by (simp add: readFull_def)

lemma readFull_all:
  "length xs = n \<Longrightarrow>
     readFull \<lparr>pending = xs, final = fin\<rparr> n = (xs, None, \<lparr>pending = [], final = fin\<rparr>)"
  by (simp add: readFull_def)

lemma readFull_empty:
  "0 < n \<Longrightarrow> readFull \<lparr>pending = [], final = fin\<rparr> n = ([], Some fin, \<lparr>pending = [], final = fin\<rparr>)"
  by (simp add: readFull_def)

text \<open>Reading one data frame from a source that starts with it.\<close>

lemma readJSONEvent_frame:
  assumes "length p < 4294967296"
  shows "readJSONEvent \<lparr>pending = PutUint32 seq @ PutUint32 (length p) @ p @ rest, final = fin\<rparr> r w =
     (let (r1, w1) =
            (if length p > len (buf r)
             then (r\<lparr>buf := \<lparr>arr = length (heap w), len = length p\<rparr>\<rparr>,
                   w\<lparr>heap := heap w @ [replicate (length p) 0]\<rparr>)
             else (r, w));
          a = arr (buf r1);
          w2 = w1\<lparr>heap := (heap w1)[a := p @ drop (length p) (heap w1 ! a)]\<rparr>
      in (Inr (\<lparr>arr = length (heap w2), len = length p\<rparr>, \<lparr>pending = rest, final = fin\<rparr>), r1,
          w2\<lparr>heap := heap w2 @ [take (length p) (heap w2 ! a)]\<rparr>))"
proof -
  have 1: "readFull \<lparr>pending = PutUint32 seq @ PutUint32 (length p) @ p @ rest, final = fin\<rparr> 8
      = (PutUint32 seq @ PutUint32 (length p), None, \<lparr>pending = p @ rest, final = fin\<rparr>)"
    using readFull_append [of "PutUint32 seq @ PutUint32 (length p)" 8 "p @ rest" fin] by simp
  have 2: "BigEndian_Uint32 (drop 4 (PutUint32 seq @ PutUint32 (length p))) = length p"
    using Uint32_PutUint32 [OF assms, of "[]"] by simp
  have 3: "readFull \<lparr>pending = p @ rest, final = fin\<rparr> (length p) = (p, None, \<lparr>pending = rest, final = fin\<rparr>)"
    by (rule readFull_append) simp
  show ?thesis
    unfolding readJSONEvent_def 1 prod.case option.case 2 Let_def 3
    by (simp split: prod.splits)
qed

section \<open>The buffer and the payloads\<close>

lemma grows_refl: "buf_ok r w \<Longrightarrow> grows r w r w"
  by (simp add: grows_def)

lemma grows_trans:
  assumes "grows r w r1 w1" "grows r1 w1 r2 w2"
  shows "grows r w r2 w2"
  using assms unfolding grows_def by (auto; metis less_le_trans not_less)

lemma post_refl: "buf_ok r w \<Longrightarrow> post r w evs (Inr (evs, inp)) r w"
  by (simp add: post_def grows_refl fresh_def)

lemma post_Inl: "grows r w r' w' \<Longrightarrow> post r w evs (Inl err) r' w'"
  by (simp add: post_def)

lemma post_grows: "post r w evs res r' w' \<Longrightarrow> grows r w r' w'"
  by (simp add: post_def)

lemma post_source: "post r w evs (Inr (evs', inp)) r' w' \<Longrightarrow> post r w evs (Inr (evs', inp')) r' w'"
  by (simp add: post_def)

lemma fresh_trans:
  assumes g: "grows r1 w1 r2 w2" and l: "length (heap w) \<le> length (heap w1)"
    and f1: "fresh w r1 w1 new1" and f2: "fresh w1 r2 w2 new2"
  shows "fresh w r2 w2 (new1 @ new2)"
proof -
  have g': "len (buf r1) \<le> len (buf r2)" "length (heap w1) \<le> length (heap w2)"
    "arr (buf r2) = arr (buf r1) \<or> length (heap w1) \<le> arr (buf r2)"
    using g by (simp_all add: grows_def)
  have a: "\<forall>e \<in> set new1. length (heap w) \<le> arr e \<and> arr e < length (heap w2)
          \<and> arr e \<noteq> arr (buf r2) \<and> len e \<le> len (buf r2)"
    using f1 g' unfolding fresh_def by fastforce
  have b: "\<forall>e \<in> set new2. length (heap w) \<le> arr e \<and> arr e < length (heap w2)
          \<and> arr e \<noteq> arr (buf r2) \<and> len e \<le> len (buf r2)"
    using f2 l unfolding fresh_def by fastforce
  have c: "arr ` set new1 \<inter> arr ` set new2 = {}"
    using f1 f2 unfolding fresh_def by fastforce
  show ?thesis
    unfolding fresh_def using a b c f1 f2 by (auto simp: fresh_def)
qed

lemma post_trans:
  assumes "post r w evs (Inr (evs1, inp1)) r1 w1" "post r1 w1 evs1 res r2 w2"
  shows "post r w evs res r2 w2"
proof -
  have g: "grows r w r1 w1" "grows r1 w1 r2 w2" using assms by (simp_all add: post_def)
  obtain new1 where n1: "evs1 = evs @ new1" "fresh w r1 w1 new1"
    using assms(1) by (auto simp: post_def)
  have l: "length (heap w) \<le> length (heap w1)" using g(1) by (simp add: grows_def)
  show ?thesis
  proof (cases res)
    case (Inl e)
    then show ?thesis using grows_trans [OF g] by (simp add: post_def)
  next
    case (Inr p)
    obtain evs2 inp2 where p: "p = (evs2, inp2)" by (cases p)
    obtain new2 where n2: "evs2 = evs1 @ new2" "fresh w1 r2 w2 new2"
      using assms(2) Inr p by (auto simp: post_def)
    have "fresh w r2 w2 (new1 @ new2)" using fresh_trans [OF g(2) l n1(2) n2(2)] .
    then show ?thesis using grows_trans [OF g] Inr p n1 n2 by (auto simp: post_def)
  qed
qed

lemma readJSONEvent_post:
  assumes ok: "buf_ok r w" and rd: "readJSONEvent inp r w = (res, r', w')"
  shows "post r w evs (map_sum id (\<lambda>(e, inp'). (evs @ [e], inp')) res) r' w'"
proof (cases "readFull inp 8")
  case (fields hdr e8 inp1)
  show ?thesis
  proof (cases e8)
    case (Some err)
    then show ?thesis using rd fields ok by (auto simp: readJSONEvent_def post_def grows_refl)
  next
    case None
    define sz where "sz = BigEndian_Uint32 (drop 4 hdr)"
    define r1 where "r1 = (if sz > len (buf r) then r\<lparr>buf := \<lparr>arr = length (heap w), len = sz\<rparr>\<rparr> else r)"
    define w1 where "w1 = (if sz > len (buf r) then w\<lparr>heap := heap w @ [replicate sz 0]\<rparr> else w)"
    obtain data e inp2 where rf: "readFull inp1 sz = (data, e, inp2)" by (cases "readFull inp1 sz")
    define a where "a = arr (buf r1)"
    define w2 where "w2 = w1\<lparr>heap := (heap w1)[a := data @ drop (length data) (heap w1 ! a)]\<rparr>"
    have ld: "length data \<le> sz" using rf by (auto simp: readFull_def split: if_splits)
    have ok1: "buf_ok r1 w1" "sz \<le> len (buf r1)" "len (buf r) \<le> len (buf r1)"
      "length (heap w) \<le> length (heap w1)"
      "arr (buf r1) = arr (buf r) \<or> length (heap w) \<le> arr (buf r1)"
      "\<forall>b < length (heap w). heap w1 ! b = heap w ! b" "chans w1 = chans w"
      using ok by (auto simp: r1_def w1_def buf_ok_def nth_append)
    have la: "a < length (heap w1)" "len (buf r1) \<le> length (heap w1 ! a)"
      using ok1(1) by (simp_all add: buf_ok_def a_def)
    have l2: "length (heap w2) = length (heap w1)" by (simp add: w2_def)
    have h2: "\<forall>b < length (heap w1). b \<noteq> a \<longrightarrow> heap w2 ! b = heap w1 ! b" by (simp add: w2_def)
    have ha: "length (heap w2 ! a) = length (heap w1 ! a)"
      using la ld ok1(2) by (simp add: w2_def)
    have g2: "grows r w r1 w2"
      unfolding grows_def buf_ok_def
      using ok1 la l2 h2 ha a_def w2_def by auto
    have unf: "readJSONEvent inp r w =
       (case e of
          Some err \<Rightarrow> (Inl err, r1, w2)
        | None \<Rightarrow> (Inr (\<lparr>arr = length (heap w2), len = sz\<rparr>, inp2), r1,
                    w2\<lparr>heap := heap w2 @ [take sz (heap w2 ! a)]\<rparr>))"
      using rf unfolding readJSONEvent_def fields None r1_def w1_def a_def w2_def sz_def
      by (auto simp: Let_def split: option.splits)
    show ?thesis
    proof (cases e)
      case (Some err)
      then show ?thesis using rd unf g2 by (auto simp: post_def)
    next
      case None
      define w3 where "w3 = w2\<lparr>heap := heap w2 @ [take sz (heap w2 ! a)]\<rparr>"
      have res: "res = Inr (\<lparr>arr = length (heap w2), len = sz\<rparr>, inp2)" "r' = r1" "w' = w3"
        using rd unf None by (simp_all add: w3_def)
      have g3: "grows r w r1 w3"
        using g2 unfolding grows_def buf_ok_def w3_def by (auto simp: nth_append)
      have "fresh w r1 w3 [\<lparr>arr = length (heap w2), len = sz\<rparr>]"
        using ok1 la l2 by (auto simp: fresh_def w3_def a_def)
      then show ?thesis using g3 by (simp add: res post_def)
    qed
  qed
qed

lemma post_buf_ok: "post r w evs res r' w' \<Longrightarrow> buf_ok r' w'"
  by (simp add: post_def grows_def)

lemma readEvents_post_aux:
  "(\<forall>E inp evs cap r w res r' w'.
      buf_ok r w \<longrightarrow> readEvents n E inp evs cap r w = Some (res, r', w') \<longrightarrow> post r w evs res r' w')
   \<and> (\<forall>E inp evs cap r w res r' w'.
      buf_ok r w \<longrightarrow> readCompressed n E inp evs cap r w = Some (res, r', w') \<longrightarrow> post r w evs res r' w')"
proof (induction n)
  case 0
  show ?case by simp
next
  case (Suc n)
  have IH1: "\<And>E inp evs cap r w res r' w'.
      buf_ok r w \<Longrightarrow> readEvents n E inp evs cap r w = Some (res, r', w') \<Longrightarrow> post r w evs res r' w'"
    using Suc by blast
  have IH2: "\<And>E inp evs cap r w res r' w'.
      buf_ok r w \<Longrightarrow> readCompressed n E inp evs cap r w = Some (res, r', w') \<Longrightarrow> post r w evs res r' w'"
    using Suc by blast
  have A: "post r w evs res r' w'"
    if ok: "buf_ok r w" and rd: "readEvents (Suc n) E inp evs cap r w = Some (res, r', w')"
    for E inp evs cap r w res r' w'
  proof (cases "length evs < cap")
    case False
    then show ?thesis using rd ok by (auto simp: post_refl)
  next
    case True
    obtain hdr e2 inp1 where rf: "readFull inp 2 = (hdr, e2, inp1)" by (cases "readFull inp 2")
    have stop: "post r w evs (Inl err) r w" for err using ok by (simp add: post_Inl grows_refl)
    show ?thesis
    proof (cases e2)
      case (Some err)
      then show ?thesis using rd True rf stop by auto
    next
      case None
      note rd1 = rd [simplified readEvents.simps True if_True rf prod.case None option.case]
      show ?thesis
      proof (cases "hdr ! 0 \<noteq> CodeVersion E")
        case True
        then show ?thesis using rd1 stop by auto
      next
        case v: False
        show ?thesis
        proof (cases "hdr ! 1 = CodeJSONDataFrame E")
          case True
          obtain resj r1 w1 where rj: "readJSONEvent inp1 r w = (resj, r1, w1)"
            by (cases "readJSONEvent inp1 r w")
          note pj = readJSONEvent_post [OF ok rj, of evs]
          show ?thesis
          proof (cases resj)
            case (Inl err)
            then show ?thesis using rd1 v True rj pj by auto
          next
            case (Inr p)
            obtain event inp2 where p: "p = (event, inp2)" by (cases p)
            have "readEvents n E inp2 (evs @ [event]) cap r1 w1 = Some (res, r', w')"
              using rd1 v True rj Inr p by simp
            then have "post r1 w1 (evs @ [event]) res r' w'"
              using IH1 post_buf_ok [OF pj] by blast
            moreover have "post r w evs (Inr (evs @ [event], inp2)) r1 w1"
              using pj Inr p by simp
            ultimately show ?thesis by (rule post_trans [rotated])
          qed
        next
          case j: False
          show ?thesis
          proof (cases "hdr ! 1 = CodeCompressed E")
            case False
            then show ?thesis using rd1 v j stop by auto
          next
            case True
            have rd2: "(case readCompressed n E inp1 evs cap r w of
                          None \<Rightarrow> None
                        | Some (Inl err, r1, w1) \<Rightarrow> Some (Inl err, r1, w1)
                        | Some (Inr (readEvents1, inp2), r1, w1) \<Rightarrow>
                            readEvents n E inp2 readEvents1 cap r1 w1) = Some (res, r', w')"
              using rd1 v j True by simp
            show ?thesis
            proof (cases "readCompressed n E inp1 evs cap r w")
              case None
              then show ?thesis using rd2 by simp
            next
              case (Some t)
              obtain resc r1 w1 where t: "t = (resc, r1, w1)" by (cases t)
              have pc: "post r w evs resc r1 w1" using IH2 [OF ok] Some t by blast
              show ?thesis
              proof (cases resc)
                case (Inl err)
                then show ?thesis using rd2 Some t pc by auto
              next
                case (Inr p)
                obtain evs1 inp2 where p: "p = (evs1, inp2)" by (cases p)
                have "readEvents n E inp2 evs1 cap r1 w1 = Some (res, r', w')"
                  using rd2 Some t Inr p by simp
                then have "post r1 w1 evs1 res r' w'"
                  using IH1 post_buf_ok [OF pc] by blast
                moreover have "post r w evs (Inr (evs1, inp2)) r1 w1" using pc Inr p by simp
                ultimately show ?thesis by (rule post_trans [rotated])
              qed
            qed
          qed
        qed
      qed
    qed
  qed
  have B: "post r w evs res r' w'"
    if ok: "buf_ok r w" and rd: "readCompressed (Suc n) E inp evs cap r w = Some (res, r', w')"
    for E inp evs cap r w res r' w'
  proof -
    obtain hdr e4 inp1 where rf: "readFull inp 4 = (hdr, e4, inp1)" by (cases "readFull inp 4")
    have stop: "post r w evs (Inl err) r w" for err using ok by (simp add: post_Inl grows_refl)
    show ?thesis
    proof (cases e4)
      case (Some err)
      then show ?thesis using rd rf stop by auto
    next
      case None
      define limit where "limit = \<lparr>R = inp1, N = BigEndian_Uint32 hdr\<rparr>"
      note rd1 = rd [simplified readCompressed.simps rf prod.case None option.case Let_def
          limit_def [symmetric]]
      show ?thesis
      proof (cases "zlib_NewReader E (limit_view limit)")
        case (Inl err)
        then show ?thesis using rd1 stop by auto
      next
        case (Inr zr)
        show ?thesis
        proof (cases "readEvents n E zr evs cap r w")
          case None
          then show ?thesis using rd1 Inr by simp
        next
          case (Some t)
          obtain rese r1 w1 where t: "t = (rese, r1, w1)" by (cases t)
          have pe: "post r w evs rese r1 w1" using IH1 [OF ok] Some t by blast
          show ?thesis
          proof (cases rese)
            case (Inl err)
            then show ?thesis using rd1 \<open>zlib_NewReader E (limit_view limit) = Inr zr\<close> Some t pe by auto
          next
            case ev: (Inr p)
            obtain evs1 zr1 where p: "p = (evs1, zr1)" by (cases p)
            have g: "grows r w r1 w1" using pe by (rule post_grows)
            have fin: "r' = r1 \<and> w' = w1 \<and> ((\<exists>err. res = Inl err) \<or> (\<exists>inp2. res = Inr (evs1, inp2)))"
              using rd1 \<open>zlib_NewReader E (limit_view limit) = Inr zr\<close> Some t ev p
              by (auto split: option.splits sum.splits)
            have "post r w evs (Inr (evs1, inp2)) r1 w1" for inp2
              using pe ev p post_source by blast
            then show ?thesis
              using fin g
              by (auto simp: post_Inl)
          qed
        qed
      qed
    qed
  qed
  show ?case using A B by blast
qed

lemma readEvents_post:
  "buf_ok r w \<Longrightarrow> readEvents n E inp evs cap r w = Some (res, r', w') \<Longrightarrow> post r w evs res r' w'"
  using readEvents_post_aux by blast

lemma readCompressed_post:
  "buf_ok r w \<Longrightarrow> readCompressed n E inp evs cap r w = Some (res, r', w') \<Longrightarrow> post r w evs res r' w'"
  using readEvents_post_aux by blast

text \<open>
  The buffer is in order when \<open>newReader\<close> returns, and every call of \<open>ReadBatch\<close> leaves it
  in order.
\<close>

lemma newReader_buf_ok: "newReader c to d w = (r, w') \<Longrightarrow> buf_ok r w'"
  by (auto simp: newReader_def buf_ok_def)

lemma ReadBatch_buf_ok:
  assumes "buf_ok r w" and "ReadBatch fuel E now inp r w = Some (res, r', w')"
  shows "buf_ok r' w'"
proof -
  have c: "buf_ok (r\<lparr>conn := c\<rparr>) w" for c using assms(1) by (simp add: buf_ok_def)
  have k: "buf_ok r2 (w2\<lparr>chans := cs\<rparr>)" if "buf_ok r2 w2" for r2 w2 cs
    using that by (simp add: buf_ok_def)
  have "buf_ok r2 w2"
    if "readEvents fuel E inp1 [] K (r\<lparr>conn := c\<rparr>) w = Some (x, r2, w2)" for inp1 K c x r2 w2
    using readEvents_post [OF c that] by (rule post_buf_ok)
  then show ?thesis
    using assms(2) c k unfolding ReadBatch_def Let_def
    by (auto simp: NewBatch_def split: prod.splits option.splits sum.splits if_splits)
qed

section \<open>The fields of the reader that the decoding never looks at\<close>

lemma readJSONEvent_reader:
  assumes "\<And>r. buf (f r) = buf r" "\<And>r b. f (r\<lparr>buf := b\<rparr>) = (f r)\<lparr>buf := b\<rparr>"
  shows "readJSONEvent inp (f r) w = (case readJSONEvent inp r w of (res, r', w') \<Rightarrow> (res, f r', w'))"
  unfolding readJSONEvent_def
  by (simp add: assms Let_def split: prod.splits option.splits)

lemma readEvents_reader_aux:
  assumes "\<And>r. buf (f r) = buf r" "\<And>r b. f (r\<lparr>buf := b\<rparr>) = (f r)\<lparr>buf := b\<rparr>"
  shows "(\<forall>E inp evs cap r w.
            readEvents n E inp evs cap (f r) w
              = map_option (\<lambda>(res, r', w'). (res, f r', w')) (readEvents n E inp evs cap r w))
       \<and> (\<forall>E inp evs cap r w.
            readCompressed n E inp evs cap (f r) w
              = map_option (\<lambda>(res, r', w'). (res, f r', w')) (readCompressed n E inp evs cap r w))"
proof (induction n)
  case 0
  show ?case by simp
next
  case (Suc n)
  have IH1: "readEvents n E inp evs cap (f r) w
      = map_option (\<lambda>(res, r', w'). (res, f r', w')) (readEvents n E inp evs cap r w)"
    for E inp evs cap r w using Suc by blast
  have IH2: "readCompressed n E inp evs cap (f r) w
      = map_option (\<lambda>(res, r', w'). (res, f r', w')) (readCompressed n E inp evs cap r w)"
    for E inp evs cap r w using Suc by blast
  have A: "readEvents (Suc n) E inp evs cap (f r) w
      = map_option (\<lambda>(res, r', w'). (res, f r', w')) (readEvents (Suc n) E inp evs cap r w)"
    for E inp evs cap r w
    by (simp add: IH1 IH2 readJSONEvent_reader [of f, OF assms]
        split: prod.splits option.splits sum.splits)
  have B: "readCompressed (Suc n) E inp evs cap (f r) w
      = map_option (\<lambda>(res, r', w'). (res, f r', w')) (readCompressed (Suc n) E inp evs cap r w)"
    for E inp evs cap r w
    by (simp add: IH1 Let_def split: prod.splits option.splits sum.splits)
  show ?case using A B by blast
qed

lemma readEvents_reader:
  assumes "\<And>r. buf (f r) = buf r" "\<And>r b. f (r\<lparr>buf := b\<rparr>) = (f r)\<lparr>buf := b\<rparr>"
  shows "readEvents n E inp evs cap (f r) w
           = map_option (\<lambda>(res, r', w'). (res, f r', w')) (readEvents n E inp evs cap r w)"
  using readEvents_reader_aux [of f, OF assms] by blast

lemma decoder_conn_commute:
  "(r\<lparr>conn := c\<rparr>)\<lparr>decoder := d\<rparr> = (r\<lparr>decoder := d\<rparr>)\<lparr>conn := c\<rparr>" for r :: reader
  by (cases r) simp

lemma readEvents_keeps_fields:
  assumes "readEvents n E inp evs cap r w = Some (res, r', w')"
  shows "conn r' = conn r \<and> timeout r' = timeout r \<and> decoder r' = decoder r"
proof -
  define f :: "reader \<Rightarrow> reader"
    where "f = (\<lambda>x. x\<lparr>conn := conn r, timeout := timeout r, decoder := decoder r\<rparr>)"
  have "readEvents n E inp evs cap (f r) w
      = map_option (\<lambda>(res, r', w'). (res, f r', w')) (readEvents n E inp evs cap r w)"
    by (rule readEvents_reader) (simp_all add: f_def)
  moreover have "f r = r" by (simp add: f_def)
  ultimately have "r' = f r'" using assms by simp
  then have "conn r' = conn (f r')" "timeout r' = timeout (f r')" "decoder r' = decoder (f r')"
    by simp_all
  then show ?thesis by (simp add: f_def)
qed

section \<open>More fuel changes nothing\<close>

lemma fuel_Suc_aux:
  "(\<forall>E inp evs cap r w x. readEvents n E inp evs cap r w = Some x
        \<longrightarrow> readEvents (Suc n) E inp evs cap r w = Some x)
   \<and> (\<forall>E inp evs cap r w x. readCompressed n E inp evs cap r w = Some x
        \<longrightarrow> readCompressed (Suc n) E inp evs cap r w = Some x)"
proof (induction n)
  case 0
  show ?case by simp
next
  case (Suc n)
  have IH1: "readEvents n E inp evs cap r w = Some x \<Longrightarrow> readEvents (Suc n) E inp evs cap r w = Some x"
    for E inp evs cap r w x using Suc by blast
  have IH2: "readCompressed n E inp evs cap r w = Some x \<Longrightarrow> readCompressed (Suc n) E inp evs cap r w = Some x"
    for E inp evs cap r w x using Suc by blast
  have A: "readEvents (Suc (Suc n)) E inp evs cap r w = Some x"
    if "readEvents (Suc n) E inp evs cap r w = Some x" for E inp evs cap r w x
    using that
    apply (subst (asm) readEvents.simps(2))
    apply (subst readEvents.simps(2))
    apply (auto simp del: readEvents.simps readCompressed.simps
        split: prod.splits option.splits sum.splits if_splits dest: IH1 IH2)
     apply (frule IH2, drule IH1, simp del: readEvents.simps readCompressed.simps)+
    done
  have B: "readCompressed (Suc (Suc n)) E inp evs cap r w = Some x"
    if "readCompressed (Suc n) E inp evs cap r w = Some x" for E inp evs cap r w x
    using that
    apply (subst (asm) readCompressed.simps(2))
    apply (subst readCompressed.simps(2))
    apply (auto simp del: readEvents.simps readCompressed.simps simp: Let_def
        split: prod.splits option.splits sum.splits if_splits dest: IH1)
    done
  show ?case using A B by blast
qed

lemma readEvents_fuel_Suc:
  "readEvents n E inp evs cap r w = Some x \<Longrightarrow> readEvents (Suc n) E inp evs cap r w = Some x"
  using fuel_Suc_aux by blast

lemma readEvents_more_fuel:
  "readEvents n E inp evs cap r w = Some x \<Longrightarrow> readEvents (n + k) E inp evs cap r w = Some x"
proof (induction k)
  case 0
  then show ?case by simp
next
  case (Suc k)
  then have "readEvents (n + k) E inp evs cap r w = Some x" by simp
  then have "readEvents (Suc (n + k)) E inp evs cap r w = Some x" by (rule readEvents_fuel_Suc)
  then show ?case by (simp only: add_Suc_right)
qed

lemma readCompressed_more_fuel:
  "readCompressed n E inp evs cap r w = Some x \<Longrightarrow> readCompressed (n + k) E inp evs cap r w = Some x"
proof (induction k)
  case 0
  then show ?case by simp
next
  case (Suc k)
  then have "readCompressed (n + k) E inp evs cap r w = Some x" by simp
  then have "readCompressed (Suc (n + k)) E inp evs cap r w = Some x"
    using fuel_Suc_aux by blast
  then show ?case by (simp only: add_Suc_right)
qed

lemma ReadBatch_more_fuel:
  assumes "ReadBatch n E now inp r w = Some x"
  shows "ReadBatch (n + k) E now inp r w = Some x"
proof -
  obtain win e6 inp1 where rf: "readFull inp 6 = (win, e6, inp1)" by (cases "readFull inp 6")
  obtain e c1 where
    sd: "SetReadDeadline (snd (SetReadDeadline (conn r) None)) (Some (now + timeout r)) = (e, c1)"
    by (cases "SetReadDeadline (snd (SetReadDeadline (conn r) None)) (Some (now + timeout r))")
  show ?thesis
  proof (cases "readEvents n E inp1 [] (BigEndian_Uint32 (drop 2 win)) (r\<lparr>conn := c1\<rparr>) w")
    case None
    then show ?thesis
      using assms unfolding ReadBatch_def Let_def rf
      by (auto simp: sd split: option.splits if_splits)
  next
    case (Some y)
    then have "readEvents (n + k) E inp1 [] (BigEndian_Uint32 (drop 2 win)) (r\<lparr>conn := c1\<rparr>) w = Some y"
      by (rule readEvents_more_fuel)
    then show ?thesis
      using assms Some unfolding ReadBatch_def Let_def rf
      by (auto simp: sd split: option.splits if_splits)
  qed
qed

section \<open>Decoding the frames of a window\<close>

lemma grows_keeps:
  "grows r w r' w' \<Longrightarrow> arr e < length (heap w) \<Longrightarrow> arr e \<noteq> arr (buf r) \<Longrightarrow> deref w' e = deref w e"
  by (simp add: grows_def deref_def)

lemma readJSONEvent_decodes:
  assumes ok: "buf_ok r w" and lp: "length p < 4294967296"
  shows "\<exists>e r1 w1.
           readJSONEvent \<lparr>pending = PutUint32 seq @ PutUint32 (length p) @ p @ rest, final = fin\<rparr> r w
             = (Inr (e, \<lparr>pending = rest, final = fin\<rparr>), r1, w1)
           \<and> deref w1 e = p"
proof -
  define r1 where "r1 = (if length p > len (buf r)
      then r\<lparr>buf := \<lparr>arr = length (heap w), len = length p\<rparr>\<rparr> else r)"
  define w1 where "w1 = (if length p > len (buf r)
      then w\<lparr>heap := heap w @ [replicate (length p) 0]\<rparr> else w)"
  define a where "a = arr (buf r1)"
  define w2 where "w2 = w1\<lparr>heap := (heap w1)[a := p @ drop (length p) (heap w1 ! a)]\<rparr>"
  define w3 where "w3 = w2\<lparr>heap := heap w2 @ [take (length p) (heap w2 ! a)]\<rparr>"
  define e where "e = \<lparr>arr = length (heap w2), len = length p\<rparr>"
  have rd: "readJSONEvent \<lparr>pending = PutUint32 seq @ PutUint32 (length p) @ p @ rest, final = fin\<rparr> r w
      = (Inr (e, \<lparr>pending = rest, final = fin\<rparr>), r1, w3)"
    unfolding readJSONEvent_frame [OF lp] r1_def w1_def a_def w2_def w3_def e_def
    by (simp add: Let_def)
  have "a < length (heap w1)" using ok by (auto simp: a_def r1_def w1_def buf_ok_def)
  then have "heap w2 ! a = p @ drop (length p) (heap w1 ! a)" by (simp add: w2_def)
  then have "deref w3 e = p" by (simp add: deref_def w3_def e_def)
  with rd show ?thesis by blast
qed

lemma readEvents_full:
  "cap \<le> length evs \<Longrightarrow> readEvents (Suc n) E inp evs cap r w = Some (Inr (evs, inp), r, w)"
  by simp

lemma encode_frames_Cons [simp]:
  "encode_frames E (f # fs) = encode_frame E f @ encode_frames E fs"
  by (simp add: encode_frames_def)

lemma encode_frames_Nil [simp]: "encode_frames E [] = []"
  by (simp add: encode_frames_def)

lemma readEvents_frames:
  assumes jc: "CodeJSONDataFrame E \<noteq> CodeCompressed E"
  shows "list_all (well_formed E) fs \<Longrightarrow> compressed_last fs \<Longrightarrow> buf_ok r w
    \<Longrightarrow> length evs + length (concat (map payloads fs)) = cap \<Longrightarrow> calls fs \<le> fuel
    \<Longrightarrow> \<exists>new r' w'.
          readEvents fuel E \<lparr>pending = encode_frames E fs @ rest, final = fin\<rparr> evs cap r w
            = Some (Inr (evs @ new, \<lparr>pending = rest, final = fin\<rparr>), r', w')
          \<and> map (deref w') new = concat (map payloads fs)"
proof (induction fs arbitrary: evs r w fuel rest fin rule: compressed_last.induct)
  case 1
  then obtain n where "fuel = Suc n" by (cases fuel) auto
  then show ?case using "1.prems" by simp
next
  case (2 seq p fs)
  obtain n where fuel: "fuel = Suc n" and n: "calls fs \<le> n"
    using "2.prems"(5) by (cases fuel) auto
  have lp: "length p < 4294967296" using "2.prems"(1) by simp
  obtain e r1 w1 where
    rj: "readJSONEvent \<lparr>pending = PutUint32 seq @ PutUint32 (length p) @ p @ encode_frames E fs @ rest,
            final = fin\<rparr> r w
          = (Inr (e, \<lparr>pending = encode_frames E fs @ rest, final = fin\<rparr>), r1, w1)"
    and de: "deref w1 e = p"
    using readJSONEvent_decodes [OF "2.prems"(3) lp] by blast
  have pj: "post r w evs (Inr (evs @ [e], \<lparr>pending = encode_frames E fs @ rest, final = fin\<rparr>)) r1 w1"
    using readJSONEvent_post [OF "2.prems"(3) rj, of evs] by simp
  have ok1: "buf_ok r1 w1" using pj by (rule post_buf_ok)
  have fe: "arr e < length (heap w1)" "arr e \<noteq> arr (buf r1)"
    using pj by (auto simp: post_def fresh_def)
  have "length (evs @ [e]) + length (concat (map payloads fs)) = cap" using "2.prems"(4) by simp
  from "2.IH" [OF _ _ ok1 this n, of rest fin] "2.prems"(1,2)
  obtain new r' w' where
    re: "readEvents n E \<lparr>pending = encode_frames E fs @ rest, final = fin\<rparr> (evs @ [e]) cap r1 w1
          = Some (Inr ((evs @ [e]) @ new, \<lparr>pending = rest, final = fin\<rparr>), r', w')"
    and dn: "map (deref w') new = concat (map payloads fs)"
    by auto
  have "grows r1 w1 r' w'" using readEvents_post [OF ok1 re] by (rule post_grows)
  then have de': "deref w' e = p" using grows_keeps fe de by metis
  have lt: "length evs < cap" using "2.prems"(4) by simp
  have rf: "readFull \<lparr>pending = [CodeVersion E, CodeJSONDataFrame E] @ PutUint32 seq @ PutUint32 (length p)
              @ p @ encode_frames E fs @ rest, final = fin\<rparr> 2
      = ([CodeVersion E, CodeJSONDataFrame E], None,
         \<lparr>pending = PutUint32 seq @ PutUint32 (length p) @ p @ encode_frames E fs @ rest, final = fin\<rparr>)"
    by (rule readFull_append) simp
  have "readEvents fuel E \<lparr>pending = encode_frames E (DataFrame seq p # fs) @ rest, final = fin\<rparr> evs cap r w
      = Some (Inr (evs @ (e # new), \<lparr>pending = rest, final = fin\<rparr>), r', w')"
    unfolding fuel using lt re rf rj by simp
  moreover have "map (deref w') (e # new) = concat (map payloads (DataFrame seq p # fs))"
    using de' dn by simp
  ultimately show ?case by blast
next
  case (3 c gs fs)
  have fs: "fs = []" and cl: "compressed_last gs" and ne: "concat (map payloads gs) \<noteq> []"
    using "3.prems"(2) by simp_all
  have wf: "length c < 4294967296"
    "zlib_NewReader E \<lparr>pending = c, final = EOF\<rparr> = Inr \<lparr>pending = encode_frames E gs, final = EOF\<rparr>"
    "\<And>k. k \<le> length (encode_frames E gs) \<Longrightarrow> zlib_Close E \<lparr>pending = c, final = EOF\<rparr> k = None"
    "list_all (well_formed E) gs"
    using "3.prems"(1) by (simp_all add: encode_frames_def)
  obtain m where fuel: "fuel = Suc (Suc m)" and m: "calls gs \<le> m"
    using "3.prems"(5) fs by (cases fuel; cases "fuel - 1") auto
  have sum: "length evs + length (concat (map payloads gs)) = cap" using "3.prems"(4) fs by simp
  from "3.IH" [OF wf(4) cl "3.prems"(3) sum m, of "[]" EOF]
  obtain new r' w' where
    re: "readEvents m E \<lparr>pending = encode_frames E gs, final = EOF\<rparr> evs cap r w
          = Some (Inr (evs @ new, \<lparr>pending = [], final = EOF\<rparr>), r', w')"
    and dn: "map (deref w') new = concat (map payloads gs)"
    by auto
  have ln: "length new = length (concat (map payloads gs))"
    using dn by (metis length_map)
  have lt: "length evs < cap" using sum ne by (cases "concat (map payloads gs)") auto
  have full: "cap \<le> length (evs @ new)" using sum ln by simp
  let ?inp1 = "\<lparr>pending = PutUint32 (length c) @ c @ rest, final = fin\<rparr>"
  let ?inp2 = "\<lparr>pending = c @ rest, final = fin\<rparr>"
  have rf2: "readFull \<lparr>pending = [CodeVersion E, CodeCompressed E] @ PutUint32 (length c) @ c @ rest,
                final = fin\<rparr> 2 = ([CodeVersion E, CodeCompressed E], None, ?inp1)"
    by (rule readFull_append) simp
  have rf4: "readFull ?inp1 4 = (PutUint32 (length c), None, ?inp2)"
    by (rule readFull_append) simp
  have sz: "BigEndian_Uint32 (PutUint32 (length c)) = length c"
    using Uint32_PutUint32 [OF wf(1), of "[]"] by simp
  have lv: "limit_view \<lparr>R = ?inp2, N = length c\<rparr> = \<lparr>pending = c, final = EOF\<rparr>"
    by (simp add: limit_view_def)
  have cf: "consume_final \<lparr>R = ?inp2, N = length c\<rparr> = Inr \<lparr>pending = rest, final = fin\<rparr>"
    by (simp add: consume_final_eq)
  have rc: "readCompressed (Suc m) E ?inp1 evs cap r w
      = Some (Inr (evs @ new, \<lparr>pending = rest, final = fin\<rparr>), r', w')"
    using rf4 sz lv wf(2) re wf(3) [of "length (encode_frames E gs)"] cf by (simp add: Let_def)
  have "readEvents fuel E \<lparr>pending = encode_frames E (CompressedFrame c gs # fs) @ rest, final = fin\<rparr>
          evs cap r w
      = Some (Inr (evs @ new, \<lparr>pending = rest, final = fin\<rparr>), r', w')"
    unfolding fuel fs using lt jc full rf2 rc
    by (simp del: readCompressed.simps)
  moreover have "map (deref w') new = concat (map payloads (CompressedFrame c gs # fs))"
    using dn fs by simp
  ultimately show ?case by blast
qed

lemma readCompressed_frame:
  assumes jc: "CodeJSONDataFrame E \<noteq> CodeCompressed E"
    and wf: "well_formed E (CompressedFrame c gs)" and cl: "compressed_last gs"
    and ok: "buf_ok r w" and sum: "length evs + length (concat (map payloads gs)) = cap"
    and fuel: "Suc (calls gs) \<le> fuel"
  shows "\<exists>new r' w'.
          readCompressed fuel E \<lparr>pending = PutUint32 (length c) @ c @ rest, final = fin\<rparr> evs cap r w
            = Some (Inr (evs @ new, \<lparr>pending = rest, final = fin\<rparr>), r', w')
          \<and> map (deref w') new = concat (map payloads gs)"
proof -
  have wf': "length c < 4294967296"
    "zlib_NewReader E \<lparr>pending = c, final = EOF\<rparr> = Inr \<lparr>pending = encode_frames E gs, final = EOF\<rparr>"
    "zlib_Close E \<lparr>pending = c, final = EOF\<rparr> (length (encode_frames E gs)) = None"
    "list_all (well_formed E) gs"
    using wf by (simp_all add: encode_frames_def)
  obtain m where m: "fuel = Suc m" "calls gs \<le> m" using fuel by (cases fuel) auto
  from readEvents_frames [OF jc wf'(4) cl ok sum m(2), of "[]" EOF]
  obtain new r' w' where
    re: "readEvents m E \<lparr>pending = encode_frames E gs, final = EOF\<rparr> evs cap r w
          = Some (Inr (evs @ new, \<lparr>pending = [], final = EOF\<rparr>), r', w')"
    and dn: "map (deref w') new = concat (map payloads gs)"
    by auto
  let ?inp1 = "\<lparr>pending = PutUint32 (length c) @ c @ rest, final = fin\<rparr>"
  let ?inp2 = "\<lparr>pending = c @ rest, final = fin\<rparr>"
  have rf4: "readFull ?inp1 4 = (PutUint32 (length c), None, ?inp2)"
    by (rule readFull_append) simp
  have sz: "BigEndian_Uint32 (PutUint32 (length c)) = length c"
    using Uint32_PutUint32 [OF wf'(1), of "[]"] by simp
  have lv: "limit_view \<lparr>R = ?inp2, N = length c\<rparr> = \<lparr>pending = c, final = EOF\<rparr>"
    by (simp add: limit_view_def)
  have cf: "consume_final \<lparr>R = ?inp2, N = length c\<rparr> = Inr \<lparr>pending = rest, final = fin\<rparr>"
    by (simp add: consume_final_eq)
  have "readCompressed fuel E ?inp1 evs cap r w
      = Some (Inr (evs @ new, \<lparr>pending = rest, final = fin\<rparr>), r', w')"
    unfolding m(1) using rf4 sz lv wf'(2) re wf'(3) cf by (simp add: Let_def)
  with dn show ?thesis by blast
qed

lemma deref_chans [simp]: "deref (w\<lparr>chans := c\<rparr>) = deref w"
  by (simp add: deref_def fun_eq_iff)

lemma ReadBatch_count_zero:
  "v = CodeVersion E \<or> t = CodeWindowSize E \<Longrightarrow>
     ReadBatch fuel E now \<lparr>pending = [v, t] @ PutUint32 0 @ rest, final = fin\<rparr> r w =
       Some (Inr (None, \<lparr>pending = rest, final = fin\<rparr>),
             r\<lparr>conn := snd (SetReadDeadline (conn r) None)\<rparr>, w)"
  by (auto simp: ReadBatch_def readFull_def PutUint32_def BigEndian_Uint32_def Let_def)

lemma ReadBatch_frames:
  assumes jc: "CodeJSONDataFrame E \<noteq> CodeCompressed E"
    and hd: "v = CodeVersion E \<or> t = CodeWindowSize E"
    and wf: "list_all (well_formed E) fs" and cl: "compressed_last fs"
    and K: "length (concat (map payloads fs)) = K" "0 < K" "K < 4294967296"
    and ok: "buf_ok r w" and dl: "setDeadlineErr (conn r) = None"
    and fuel: "calls fs \<le> fuel"
  shows "\<exists>b r' w'.
          ReadBatch fuel E now \<lparr>pending = [v, t] @ PutUint32 K @ encode_frames E fs @ rest, final = fin\<rparr> r w
            = Some (Inr (Some b, \<lparr>pending = rest, final = fin\<rparr>), r', w')
          \<and> map (deref w') (Events b) = concat (map payloads fs)"
proof -
  define r1 where "r1 = r\<lparr>conn := (conn r)\<lparr>readDeadline := Some (now + timeout r)\<rparr>\<rparr>"
  have ok1: "buf_ok r1 w" using ok by (simp add: r1_def buf_ok_def)
  have "length ([]::slice list) + length (concat (map payloads fs)) = K" using K(1) by simp
  from readEvents_frames [OF jc wf cl ok1 this fuel, of rest fin]
  obtain new r' w' where
    re: "readEvents fuel E \<lparr>pending = encode_frames E fs @ rest, final = fin\<rparr> [] K r1 w
          = Some (Inr (new, \<lparr>pending = rest, final = fin\<rparr>), r', w')"
    and dn: "map (deref w') new = concat (map payloads fs)"
    by auto
  have rf: "readFull \<lparr>pending = [v, t] @ PutUint32 K @ encode_frames E fs @ rest, final = fin\<rparr> 6
      = ([v, t] @ PutUint32 K, None, \<lparr>pending = encode_frames E fs @ rest, final = fin\<rparr>)"
    using readFull_append [of "[v, t] @ PutUint32 K" 6 "encode_frames E fs @ rest" fin] by simp
  have cnt: "BigEndian_Uint32 (drop 2 ([v, t] @ PutUint32 K)) = K"
    using Uint32_PutUint32 [OF K(3), of "[]"] by simp
  define b where "b = \<lparr>Events = new, ack = length (chans w'), ClientX509Cert =
      (case verifiedChains (conn r') of
         Some vchains \<Rightarrow> if length vchains = 1 \<and> length (vchains ! 0) = 2
                         then Some (vchains ! 0 ! 0) else None
       | None \<Rightarrow> None)\<rparr>"
  have "ReadBatch fuel E now \<lparr>pending = [v, t] @ PutUint32 K @ encode_frames E fs @ rest, final = fin\<rparr> r w
      = Some (Inr (Some b, \<lparr>pending = rest, final = fin\<rparr>), r', w'\<lparr>chans := chans w' @ [Open]\<rparr>)"
    unfolding ReadBatch_def rf prod.case option.case cnt Let_def
    using hd K(2) dl re
    by (auto simp: SetReadDeadline_def r1_def NewBatch_def b_def)
  moreover have "map (deref (w'\<lparr>chans := chans w' @ [Open]\<rparr>)) (Events b) = concat (map payloads fs)"
    using dn by (simp add: b_def)
  ultimately show ?thesis by blast
qed

lemma well_formed_stored:
  assumes "list_all (well_formed lumberjack_v2) gs" "length (encode_frames lumberjack_v2 gs) < 65536"
  shows "well_formed lumberjack_v2 (CompressedFrame (zlib_store (encode_frames lumberjack_v2 gs)) gs)"
  using assms zlib_store_inflates [OF assms(2)] zlib_store_Close [OF assms(2)]
  by (simp add: encode_frames_def lumberjack_v2_def)

lemma lumberjack_v2_codes [simp]:
  "CodeVersion lumberjack_v2 = 0x32" "CodeWindowSize lumberjack_v2 = 0x57"
  "CodeJSONDataFrame lumberjack_v2 = 0x4A" "CodeCompressed lumberjack_v2 = 0x43"
  by (simp_all add: lumberjack_v2_def)

lemma buf_ok_r0 [simp]: "buf_ok r0 w0"
  by (simp add: buf_ok_def r0_def w0_def newReader_def)

lemma length_a1 [simp]: "length a1 = 7"
  by (simp add: a1_def)

lemma r0_fields [simp]:
  "conn r0 = tcp" "buf r0 = \<lparr>arr = 0, len = 0\<rparr>" "timeout r0 = 30"
  by (simp_all add: r0_def newReader_def)

lemma tcp_fields [simp]:
  "verifiedChains tcp = None" "readDeadline tcp = None" "setDeadlineErr tcp = None"
  by (simp_all add: tcp_def)

lemma w0_fields [simp]: "heap w0 = [replicate 64 0]" "chans w0 = []"
  by (simp_all add: w0_def newReader_def)

lemma ReadBatch_batch_iff:
  "ReadBatch fuel E now inp r w = Some (Inr (Some b, inp'), r', w') \<longleftrightarrow>
     (\<exists>win inp1 c1 events w2.
        readFull inp 6 = (win, None, inp1)
      \<and> (win ! 0 = CodeVersion E \<or> win ! 1 = CodeWindowSize E)
      \<and> 0 < BigEndian_Uint32 (drop 2 win)
      \<and> SetReadDeadline (snd (SetReadDeadline (conn r) None)) (Some (now + timeout r)) = (None, c1)
      \<and> readEvents fuel E inp1 [] (BigEndian_Uint32 (drop 2 win)) (r\<lparr>conn := c1\<rparr>) w
          = Some (Inr (events, inp'), r', w2)
      \<and> NewBatch events
           (case verifiedChains (conn r') of
              Some vchains \<Rightarrow> if length vchains = 1 \<and> length (vchains ! 0) = 2
                              then Some (vchains ! 0 ! 0) else None
            | None \<Rightarrow> None) w2 = (b, w'))"
  unfolding ReadBatch_def Let_def
  by (auto split: prod.splits option.splits sum.splits if_splits)

lemma Max_insert_max:
  "finite S \<Longrightarrow> Max (insert (max a b) S) = Max (insert a (insert b S))" for a b :: nat
  by (cases "S = {}") (simp_all add: max.assoc)

text \<open>
  Reading one data frame: the buffer is as long as before or as the payload, whichever is
  more, it holds the payload in front, and the event is the payload.
\<close>

lemma readJSONEvent_fills:
  assumes ok: "buf_ok r w" and lp: "length p < 4294967296"
  shows "\<exists>e r1 w1.
           readJSONEvent \<lparr>pending = PutUint32 seq @ PutUint32 (length p) @ p @ rest, final = fin\<rparr> r w
             = (Inr (e, \<lparr>pending = rest, final = fin\<rparr>), r1, w1)
           \<and> deref w1 e = p
           \<and> len (buf r1) = max (len (buf r)) (length p)
           \<and> take (length p) (heap w1 ! arr (buf r1)) = p"
proof -
  define r1 where "r1 = (if length p > len (buf r)
      then r\<lparr>buf := \<lparr>arr = length (heap w), len = length p\<rparr>\<rparr> else r)"
  define w1 where "w1 = (if length p > len (buf r)
      then w\<lparr>heap := heap w @ [replicate (length p) 0]\<rparr> else w)"
  define a where "a = arr (buf r1)"
  define w2 where "w2 = w1\<lparr>heap := (heap w1)[a := p @ drop (length p) (heap w1 ! a)]\<rparr>"
  define w3 where "w3 = w2\<lparr>heap := heap w2 @ [take (length p) (heap w2 ! a)]\<rparr>"
  define e where "e = \<lparr>arr = length (heap w2), len = length p\<rparr>"
  have rd: "readJSONEvent \<lparr>pending = PutUint32 seq @ PutUint32 (length p) @ p @ rest, final = fin\<rparr> r w
      = (Inr (e, \<lparr>pending = rest, final = fin\<rparr>), r1, w3)"
    unfolding readJSONEvent_frame [OF lp] r1_def w1_def a_def w2_def w3_def e_def
    by (simp add: Let_def)
  have a: "a < length (heap w1)" using ok by (auto simp: a_def r1_def w1_def buf_ok_def)
  then have h2: "heap w2 ! a = p @ drop (length p) (heap w1 ! a)" by (simp add: w2_def)
  then have d: "deref w3 e = p" by (simp add: deref_def w3_def e_def)
  have l: "len (buf r1) = max (len (buf r)) (length p)" by (simp add: r1_def)
  have "heap w3 ! a = heap w2 ! a" using a by (simp add: w3_def w2_def nth_append)
  then have b: "take (length p) (heap w3 ! arr (buf r1)) = p" using h2 by (simp add: a_def)
  from rd d l b show ?thesis by blast
qed

lemma readEvents_frames_buffer:
  assumes jc: "CodeJSONDataFrame E \<noteq> CodeCompressed E"
  shows "list_all (well_formed E) fs \<Longrightarrow> compressed_last fs \<Longrightarrow> buf_ok r w
    \<Longrightarrow> length evs + length (concat (map payloads fs)) = cap \<Longrightarrow> calls fs \<le> fuel
    \<Longrightarrow> take (length q) (heap w ! arr (buf r)) = q
    \<Longrightarrow> \<exists>new r' w'.
          readEvents fuel E \<lparr>pending = encode_frames E fs @ rest, final = fin\<rparr> evs cap r w
            = Some (Inr (evs @ new, \<lparr>pending = rest, final = fin\<rparr>), r', w')
          \<and> map (deref w') new = concat (map payloads fs)
          \<and> len (buf r') = Max (insert (len (buf r)) (length ` set (concat (map payloads fs))))
          \<and> take (length (last (q # concat (map payloads fs)))) (heap w' ! arr (buf r'))
              = last (q # concat (map payloads fs))"
proof (induction fs arbitrary: evs r w fuel rest fin q rule: compressed_last.induct)
  case 1
  then obtain n where "fuel = Suc n" by (cases fuel) auto
  then show ?case using "1.prems" by simp
next
  case (2 seq p fs)
  obtain n where fuel: "fuel = Suc n" and n: "calls fs \<le> n"
    using "2.prems"(5) by (cases fuel) auto
  have lp: "length p < 4294967296" using "2.prems"(1) by simp
  obtain e r1 w1 where
    rj: "readJSONEvent \<lparr>pending = PutUint32 seq @ PutUint32 (length p) @ p @ encode_frames E fs @ rest,
            final = fin\<rparr> r w
          = (Inr (e, \<lparr>pending = encode_frames E fs @ rest, final = fin\<rparr>), r1, w1)"
    and de: "deref w1 e = p"
    and l1: "len (buf r1) = max (len (buf r)) (length p)"
    and b1: "take (length p) (heap w1 ! arr (buf r1)) = p"
    using readJSONEvent_fills [OF "2.prems"(3) lp] by blast
  have pj: "post r w evs (Inr (evs @ [e], \<lparr>pending = encode_frames E fs @ rest, final = fin\<rparr>)) r1 w1"
    using readJSONEvent_post [OF "2.prems"(3) rj, of evs] by simp
  have ok1: "buf_ok r1 w1" using pj by (rule post_buf_ok)
  have fe: "arr e < length (heap w1)" "arr e \<noteq> arr (buf r1)"
    using pj by (auto simp: post_def fresh_def)
  have "length (evs @ [e]) + length (concat (map payloads fs)) = cap" using "2.prems"(4) by simp
  from "2.IH" [OF _ _ ok1 this n b1, of rest fin] "2.prems"(1,2)
  obtain new r' w' where
    re: "readEvents n E \<lparr>pending = encode_frames E fs @ rest, final = fin\<rparr> (evs @ [e]) cap r1 w1
          = Some (Inr ((evs @ [e]) @ new, \<lparr>pending = rest, final = fin\<rparr>), r', w')"
    and dn: "map (deref w') new = concat (map payloads fs)"
    and ln: "len (buf r') = Max (insert (len (buf r1)) (length ` set (concat (map payloads fs))))"
    and bn: "take (length (last (p # concat (map payloads fs)))) (heap w' ! arr (buf r'))
              = last (p # concat (map payloads fs))"
    by auto
  have "grows r1 w1 r' w'" using readEvents_post [OF ok1 re] by (rule post_grows)
  then have de': "deref w' e = p" using grows_keeps fe de by metis
  have lt: "length evs < cap" using "2.prems"(4) by simp
  have rf: "readFull \<lparr>pending = [CodeVersion E, CodeJSONDataFrame E] @ PutUint32 seq @ PutUint32 (length p)
              @ p @ encode_frames E fs @ rest, final = fin\<rparr> 2
      = ([CodeVersion E, CodeJSONDataFrame E], None,
         \<lparr>pending = PutUint32 seq @ PutUint32 (length p) @ p @ encode_frames E fs @ rest, final = fin\<rparr>)"
    by (rule readFull_append) simp
  have run: "readEvents fuel E \<lparr>pending = encode_frames E (DataFrame seq p # fs) @ rest, final = fin\<rparr>
        evs cap r w
      = Some (Inr (evs @ (e # new), \<lparr>pending = rest, final = fin\<rparr>), r', w')"
    unfolding fuel using lt re rf rj by simp
  have ev: "map (deref w') (e # new) = concat (map payloads (DataFrame seq p # fs))"
    using de' dn by simp
  have mx: "len (buf r') = Max (insert (len (buf r))
        (length ` set (concat (map payloads (DataFrame seq p # fs)))))"
    unfolding ln l1 by (simp add: Max_insert_max)
  have bf: "take (length (last (q # concat (map payloads (DataFrame seq p # fs)))))
        (heap w' ! arr (buf r')) = last (q # concat (map payloads (DataFrame seq p # fs)))"
    using bn by simp
  from run ev mx bf show ?case by blast
next
  case (3 c gs fs)
  have fs: "fs = []" and cl: "compressed_last gs" and ne: "concat (map payloads gs) \<noteq> []"
    using "3.prems"(2) by simp_all
  have wf: "length c < 4294967296"
    "zlib_NewReader E \<lparr>pending = c, final = EOF\<rparr> = Inr \<lparr>pending = encode_frames E gs, final = EOF\<rparr>"
    "\<And>k. k \<le> length (encode_frames E gs) \<Longrightarrow> zlib_Close E \<lparr>pending = c, final = EOF\<rparr> k = None"
    "list_all (well_formed E) gs"
    using "3.prems"(1) by (simp_all add: encode_frames_def)
  obtain m where fuel: "fuel = Suc (Suc m)" and m: "calls gs \<le> m"
    using "3.prems"(5) fs by (cases fuel; cases "fuel - 1") auto
  have sum: "length evs + length (concat (map payloads gs)) = cap" using "3.prems"(4) fs by simp
  from "3.IH" [OF wf(4) cl "3.prems"(3) sum m "3.prems"(6), of "[]" EOF]
  obtain new r' w' where
    re: "readEvents m E \<lparr>pending = encode_frames E gs, final = EOF\<rparr> evs cap r w
          = Some (Inr (evs @ new, \<lparr>pending = [], final = EOF\<rparr>), r', w')"
    and dn: "map (deref w') new = concat (map payloads gs)"
    and ln: "len (buf r') = Max (insert (len (buf r)) (length ` set (concat (map payloads gs))))"
    and bn: "take (length (last (q # concat (map payloads gs)))) (heap w' ! arr (buf r'))
              = last (q # concat (map payloads gs))"
    by auto
  have lnew: "length new = length (concat (map payloads gs))"
    using dn by (metis length_map)
  have lt: "length evs < cap" using sum ne by (cases "concat (map payloads gs)") auto
  have full: "cap \<le> length (evs @ new)" using sum lnew by simp
  let ?inp1 = "\<lparr>pending = PutUint32 (length c) @ c @ rest, final = fin\<rparr>"
  let ?inp2 = "\<lparr>pending = c @ rest, final = fin\<rparr>"
  have rf2: "readFull \<lparr>pending = [CodeVersion E, CodeCompressed E] @ PutUint32 (length c) @ c @ rest,
                final = fin\<rparr> 2 = ([CodeVersion E, CodeCompressed E], None, ?inp1)"
    by (rule readFull_append) simp
  have rf4: "readFull ?inp1 4 = (PutUint32 (length c), None, ?inp2)"
    by (rule readFull_append) simp
  have sz: "BigEndian_Uint32 (PutUint32 (length c)) = length c"
    using Uint32_PutUint32 [OF wf(1), of "[]"] by simp
  have lv: "limit_view \<lparr>R = ?inp2, N = length c\<rparr> = \<lparr>pending = c, final = EOF\<rparr>"
    by (simp add: limit_view_def)
  have cf: "consume_final \<lparr>R = ?inp2, N = length c\<rparr> = Inr \<lparr>pending = rest, final = fin\<rparr>"
    by (simp add: consume_final_eq)
  have rc: "readCompressed (Suc m) E ?inp1 evs cap r w
      = Some (Inr (evs @ new, \<lparr>pending = rest, final = fin\<rparr>), r', w')"
    using rf4 sz lv wf(2) re wf(3) [of "length (encode_frames E gs)"] cf by (simp add: Let_def)
  have run: "readEvents fuel E \<lparr>pending = encode_frames E (CompressedFrame c gs # fs) @ rest, final = fin\<rparr>
          evs cap r w
      = Some (Inr (evs @ new, \<lparr>pending = rest, final = fin\<rparr>), r', w')"
    unfolding fuel fs using lt jc full rf2 rc
    by (simp del: readCompressed.simps)
  have ps: "concat (map payloads (CompressedFrame c gs # fs)) = concat (map payloads gs)"
    using fs by simp
  from run dn ln bn show ?case unfolding ps by blast
qed

section \<open>Acknowledging batches\<close>

lemma ACK_other:
  "ACK b' w = Inr w1 \<Longrightarrow> ack b' \<noteq> c \<Longrightarrow> completes w1 c = completes w c"
  by (auto simp: ACK_def completes_def split: if_splits chan.splits)

lemma ACK_keeps:
  "ACK b' w = Inr w1 \<Longrightarrow> completes w c \<Longrightarrow> completes w1 c"
  by (auto simp: ACK_def completes_def nth_list_update split: if_splits chan.splits)

lemma ACK_length:
  "ACK b' w = Inr w1 \<Longrightarrow> length (chans w1) = length (chans w)"
  by (auto simp: ACK_def split: if_splits chan.splits)

lemma acks_others:
  "acks bs w = Inr w1 \<Longrightarrow> \<forall>b' \<in> set bs. ack b' \<noteq> c \<Longrightarrow>
     completes w1 c = completes w c \<and> length (chans w1) = length (chans w)"
proof (induction bs arbitrary: w)
  case Nil
  then show ?case by simp
next
  case (Cons b' bs)
  then obtain wm where a: "ACK b' w = Inr wm" and r: "acks bs wm = Inr w1"
    by (auto split: sum.splits)
  have "completes w1 c = completes wm c \<and> length (chans w1) = length (chans wm)"
    using Cons.IH [OF r] Cons.prems(2) by simp
  then show ?case using ACK_other [OF a] ACK_length [OF a] Cons.prems(2) by simp
qed

lemma acks_keep:
  "acks bs w = Inr w1 \<Longrightarrow> completes w c \<Longrightarrow> completes w1 c"
proof (induction bs arbitrary: w)
  case Nil
  then show ?case by simp
next
  case (Cons b' bs)
  then obtain wm where a: "ACK b' w = Inr wm" and r: "acks bs wm = Inr w1"
    by (auto split: sum.splits)
  show ?case using Cons.IH [OF r ACK_keeps [OF a Cons.prems(2)]] .
qed

section \<open>Claims on the window-size frame\<close>

text \<open>
  C4. A window-size frame with count 0 is a heartbeat: \<open>ReadBatch\<close> returns no batch and no
  error, and the source is left right behind the six bytes of the frame. Nothing is
  allocated; of the reader only the read deadline changes (it is cleared).
\<close>

theorem heartbeat_returns_no_batch:
  assumes "pending inp = window_frame E 0 @ rest"
  shows "ReadBatch fuel E now inp r w =
           Some (Inr (None, inp\<lparr>pending := rest\<rparr>),
                 r\<lparr>conn := snd (SetReadDeadline (conn r) None)\<rparr>, w)"
  using assms
  by (simp add: ReadBatch_def readFull_def window_frame_def PutUint32_def BigEndian_Uint32_def Let_def)

theorem heartbeat_returns_no_batch_witness:
  "ReadBatch 0 lumberjack_v2 0
      \<lparr>pending = window_frame lumberjack_v2 0 @ [0x32, 0x4A], final = EOF\<rparr> r0 w0 =
     Some (Inr (None, \<lparr>pending = [0x32, 0x4A], final = EOF\<rparr>),
           r0\<lparr>conn := snd (SetReadDeadline (conn r0) None)\<rparr>, w0)"
  using heartbeat_returns_no_batch
    [of "\<lparr>pending = window_frame lumberjack_v2 0 @ [0x32, 0x4A], final = EOF\<rparr>"
        lumberjack_v2 "[0x32, 0x4A]" 0 0 r0 w0]
  by simp

text \<open>
  C1. The test of the window-size frame is a conjunction: the frame is refused only when
  the version byte and the type byte are both wrong. In the first stream the version byte
  is right and the type byte is that of a data frame, not the window-size type:
  \<open>ReadBatch\<close> does not return the protocol error, it reads on and returns a batch with the
  event that follows. In the second stream the type byte is right and the version byte is
  wrong: \<open>ReadBatch\<close> takes the frame, of count 0, for a heartbeat.
\<close>

theorem window_type_mismatch_accepted:
  "decoded (ReadBatch (Suc (Suc 0)) lumberjack_v2 0
      \<lparr>pending = [0x32, 0x4A] @ PutUint32 1 @ encode_frames lumberjack_v2 [DataFrame 1 a1] @ [],
       final = EOF\<rparr> r0 w0)
   = Some (Inr (Some [a1]))
   \<and> decoded (ReadBatch (Suc (Suc 0)) lumberjack_v2 0
      \<lparr>pending = [0x31, 0x57] @ PutUint32 0 @ [], final = EOF\<rparr> r0 w0)
   = Some (Inr None)"
proof -
  have "decoded (ReadBatch (Suc (Suc 0)) lumberjack_v2 0
      \<lparr>pending = [0x31, 0x57] @ PutUint32 0 @ [], final = EOF\<rparr> r0 w0) = Some (Inr None)"
    by (subst ReadBatch_count_zero) (simp_all add: decoded_def)
  moreover
  have "\<exists>b r' w'.
      ReadBatch (Suc (Suc 0)) lumberjack_v2 0
        \<lparr>pending = [0x32, 0x4A] @ PutUint32 1 @ encode_frames lumberjack_v2 [DataFrame 1 a1] @ [],
         final = EOF\<rparr> r0 w0
        = Some (Inr (Some b, \<lparr>pending = [], final = EOF\<rparr>), r', w')
      \<and> map (deref w') (Events b) = concat (map payloads [DataFrame 1 a1])"
    by (rule ReadBatch_frames) simp_all
  then have "decoded (ReadBatch (Suc (Suc 0)) lumberjack_v2 0
      \<lparr>pending = [0x32, 0x4A] @ PutUint32 1 @ encode_frames lumberjack_v2 [DataFrame 1 a1] @ [],
       final = EOF\<rparr> r0 w0)
   = Some (Inr (Some [a1]))"
    by (auto simp: decoded_def)
  ultimately show ?thesis by (rule conjI [rotated])
qed

section \<open>Claims on the events of a window\<close>

text \<open>
  C2, as the code has it. Take a window whose header declares \<open>K > 0\<close> events and whose
  frames bring exactly \<open>K\<close> payloads, as data frames followed by at most one compressed
  frame, which is the last frame of its level, brings at least one event and holds frames
  of the same shape. Then \<open>ReadBatch\<close>, given enough fuel, returns a batch whose events are
  those \<open>K\<close> payloads in the order of the wire, and leaves the source right behind the
  window. The events of a compressed frame count against the same \<open>K\<close> as those outside.
\<close>

theorem window_of_frames_decoded:
  assumes "CodeJSONDataFrame E \<noteq> CodeCompressed E"
    and "list_all (well_formed E) fs" and "compressed_last fs"
    and "length (concat (map payloads fs)) = K" and "0 < K" and "K < 4294967296"
    and "buf_ok r w" and "setDeadlineErr (conn r) = None"
    and "calls fs \<le> fuel"
  shows "\<exists>b r' w'.
          ReadBatch fuel E now
            \<lparr>pending = window_frame E K @ encode_frames E fs @ rest, final = fin\<rparr> r w
            = Some (Inr (Some b, \<lparr>pending = rest, final = fin\<rparr>), r', w')
          \<and> length (Events b) = K
          \<and> map (deref w') (Events b) = concat (map payloads fs)"
proof -
  have "CodeVersion E = CodeVersion E \<or> CodeWindowSize E = CodeWindowSize E" by simp
  from ReadBatch_frames [OF assms(1) this assms(2-9), of now rest fin]
  obtain b r' w' where
    rb: "ReadBatch fuel E now
          \<lparr>pending = [CodeVersion E, CodeWindowSize E] @ PutUint32 K @ encode_frames E fs @ rest,
           final = fin\<rparr> r w
          = Some (Inr (Some b, \<lparr>pending = rest, final = fin\<rparr>), r', w')"
    and ev: "map (deref w') (Events b) = concat (map payloads fs)"
    by blast
  have "length (Events b) = K" using ev assms(4) by (metis length_map)
  with rb ev show ?thesis by (auto simp: window_frame_def)
qed

text \<open>
  A window of three events: one data frame, then a compressed frame that holds two.
\<close>

theorem window_of_frames_decoded_witness:
  "\<exists>b r' w'.
     ReadBatch 7 lumberjack_v2 0
       \<lparr>pending = window_frame lumberjack_v2 3
          @ encode_frames lumberjack_v2
              [DataFrame 1 a1,
               CompressedFrame (zlib_store (encode_frames lumberjack_v2 [DataFrame 2 a1, DataFrame 3 []]))
                 [DataFrame 2 a1, DataFrame 3 []]]
          @ [],
        final = EOF\<rparr> r0 w0
       = Some (Inr (Some b, \<lparr>pending = [], final = EOF\<rparr>), r', w')
     \<and> length (Events b) = 3
     \<and> map (deref w') (Events b) = [a1, a1, []]"
proof -
  let ?gs = "[DataFrame 2 a1, DataFrame 3 []]"
  let ?c = "zlib_store (encode_frames lumberjack_v2 ?gs)"
  let ?fs = "[DataFrame 1 a1, CompressedFrame ?c ?gs]"
  have wf: "well_formed lumberjack_v2 (CompressedFrame ?c ?gs)"
    by (rule well_formed_stored) simp_all
  have h1: "CodeJSONDataFrame lumberjack_v2 \<noteq> CodeCompressed lumberjack_v2" by simp
  have h2: "list_all (well_formed lumberjack_v2) ?fs" using wf by simp
  have h3: "compressed_last ?fs" by simp
  have h4: "length (concat (map payloads ?fs)) = 3" by simp
  have h8: "setDeadlineErr (conn r0) = None" by simp
  have h9: "calls ?fs \<le> 7" by simp
  show ?thesis
    using window_of_frames_decoded [OF h1 h2 h3 h4 _ _ buf_ok_r0 h8 h9, of 0 "[]" EOF]
    by simp
qed

text \<open>
  C2, as the spec states it, fails on a mix in which a compressed frame is not the last
  frame: a window of two events, the first in a compressed frame, the second in a data
  frame behind it. Every frame is well formed and the window holds its two events, but the
  loop inside the compressed frame asks for the second event there, finds the end of the
  decompressed bytes, and \<open>ReadBatch\<close> returns \<open>EOF\<close> (with any larger bound on the calls as
  well, by \<open>ReadBatch_more_fuel\<close>).
\<close>

theorem mixed_window_fails:
  "list_all (well_formed lumberjack_v2)
     [CompressedFrame (zlib_store (encode_frames lumberjack_v2 [DataFrame 1 a1])) [DataFrame 1 a1],
      DataFrame 2 a1]
   \<and> length (concat (map payloads
        [CompressedFrame (zlib_store (encode_frames lumberjack_v2 [DataFrame 1 a1])) [DataFrame 1 a1],
         DataFrame 2 a1])) = 2
   \<and> decoded (ReadBatch (Suc (Suc (Suc (Suc 0)))) lumberjack_v2 0
        \<lparr>pending = window_frame lumberjack_v2 2
           @ encode_frames lumberjack_v2
               [CompressedFrame (zlib_store (encode_frames lumberjack_v2 [DataFrame 1 a1])) [DataFrame 1 a1],
                DataFrame 2 a1],
         final = EOF\<rparr> r0 w0)
     = Some (Inl EOF)"
proof -
  define d where "d = encode_frames lumberjack_v2 [DataFrame 1 a1]"
  define c where "c = zlib_store d"
  define tl where "tl = encode_frame lumberjack_v2 (DataFrame 2 a1)"
  define r1 where "r1 = r0\<lparr>conn := tcp\<lparr>readDeadline := Some 30\<rparr>\<rparr>"
  have ld: "length d = 17" by (simp add: d_def)
  have wf: "well_formed lumberjack_v2 (CompressedFrame c [DataFrame 1 a1])"
    unfolding c_def d_def by (rule well_formed_stored) simp_all
  have ok1: "buf_ok r1 w0" by (simp add: r1_def buf_ok_def)
  obtain e r2 w2 where
    rj: "readJSONEvent \<lparr>pending = PutUint32 1 @ PutUint32 (length a1) @ a1 @ [], final = EOF\<rparr> r1 w0
          = (Inr (e, \<lparr>pending = [], final = EOF\<rparr>), r2, w2)"
    using readJSONEvent_decodes [OF ok1, of a1 1 "[]" EOF] by auto
  have inner: "readEvents (Suc (Suc 0)) lumberjack_v2 \<lparr>pending = d, final = EOF\<rparr> [] 2 r1 w0
      = Some (Inl EOF, r2, w2)"
    using rj by (simp add: d_def readFull_def)
  have nr: "zlib_NewReader lumberjack_v2 \<lparr>pending = c, final = EOF\<rparr> = Inr \<lparr>pending = d, final = EOF\<rparr>"
    using zlib_store_inflates [of d] ld by (simp add: c_def lumberjack_v2_def)
  have lv: "limit_view \<lparr>R = \<lparr>pending = c @ tl, final = EOF\<rparr>, N = length c\<rparr> = \<lparr>pending = c, final = EOF\<rparr>"
    by (simp add: limit_view_def)
  have rf4: "readFull \<lparr>pending = PutUint32 (length c) @ c @ tl, final = EOF\<rparr> 4
      = (PutUint32 (length c), None, \<lparr>pending = c @ tl, final = EOF\<rparr>)"
    by (rule readFull_append) simp
  have sz: "BigEndian_Uint32 (PutUint32 (length c)) = length c"
    using Uint32_PutUint32 [of "length c" "[]"] ld by (simp add: c_def)
  have rc: "readCompressed (Suc (Suc (Suc 0))) lumberjack_v2
        \<lparr>pending = PutUint32 (length c) @ c @ tl, final = EOF\<rparr> [] 2 r1 w0
      = Some (Inl EOF, r2, w2)"
    using rf4 sz lv nr inner by (simp add: Let_def)
  have rf2: "readFull \<lparr>pending = [0x32, 0x43] @ PutUint32 (length c) @ c @ tl, final = EOF\<rparr> 2
      = ([0x32, 0x43], None, \<lparr>pending = PutUint32 (length c) @ c @ tl, final = EOF\<rparr>)"
    by (rule readFull_append) simp
  have re: "readEvents (Suc (Suc (Suc (Suc 0)))) lumberjack_v2
        \<lparr>pending = [0x32, 0x43] @ PutUint32 (length c) @ c @ tl, final = EOF\<rparr> [] 2 r1 w0
      = Some (Inl EOF, r2, w2)"
    using rf2 rc by (simp del: readCompressed.simps)
  have rf6: "readFull \<lparr>pending = [0x32, 0x57] @ PutUint32 2 @ [0x32, 0x43] @ PutUint32 (length c) @ c @ tl,
        final = EOF\<rparr> 6
      = ([0x32, 0x57] @ PutUint32 2, None,
         \<lparr>pending = [0x32, 0x43] @ PutUint32 (length c) @ c @ tl, final = EOF\<rparr>)"
    using readFull_append [of "[0x32, 0x57] @ PutUint32 2" 6] by simp
  have cnt: "BigEndian_Uint32 (drop 2 ([0x32, 0x57] @ PutUint32 2)) = 2"
    using Uint32_PutUint32 [of 2 "[]"] by simp
  have "ReadBatch (Suc (Suc (Suc (Suc 0)))) lumberjack_v2 0
      \<lparr>pending = [0x32, 0x57] @ PutUint32 2 @ [0x32, 0x43] @ PutUint32 (length c) @ c @ tl, final = EOF\<rparr>
      r0 w0 = Some (Inl EOF, r2, w2)"
    unfolding ReadBatch_def rf6 prod.case option.case cnt Let_def
    using re by (simp add: SetReadDeadline_def r1_def del: readEvents.simps)
  then have "decoded (ReadBatch (Suc (Suc (Suc (Suc 0)))) lumberjack_v2 0
        \<lparr>pending = window_frame lumberjack_v2 2
           @ encode_frames lumberjack_v2 [CompressedFrame c [DataFrame 1 a1], DataFrame 2 a1],
         final = EOF\<rparr> r0 w0) = Some (Inl EOF)"
    by (simp add: decoded_def window_frame_def tl_def)
  then show ?thesis using wf unfolding c_def d_def by simp
qed

text \<open>
  C3. Take any events, as sequence numbers with payloads. A window that brings them in one
  compressed frame and a window that brings them as data frames decode to the same
  result: the payloads themselves, byte for byte and in the same order (for no events at
  all both windows have count 0 and are heartbeats).
\<close>

theorem compressed_frame_same_as_data_frames:
  assumes "CodeJSONDataFrame E \<noteq> CodeCompressed E"
    and "fs = map (\<lambda>(seq, p). DataFrame seq p) sps"
    and "list_all (well_formed E) [CompressedFrame c fs]"
    and "length sps < 4294967296"
    and "buf_ok r w" and "setDeadlineErr (conn r) = None"
    and "calls fs + 3 \<le> fuel"
  shows "decoded (ReadBatch fuel E now
            \<lparr>pending = window_frame E (length sps) @ encode_frames E [CompressedFrame c fs] @ rest,
             final = fin\<rparr> r w)
         = decoded (ReadBatch fuel E now
            \<lparr>pending = window_frame E (length sps) @ encode_frames E fs @ rest, final = fin\<rparr> r w)
       \<and> decoded (ReadBatch fuel E now
            \<lparr>pending = window_frame E (length sps) @ encode_frames E [CompressedFrame c fs] @ rest,
             final = fin\<rparr> r w)
         = Some (Inr (if sps = [] then None else Some (map snd sps)))"
proof (cases "sps = []")
  case True
  have hd: "CodeVersion E = CodeVersion E \<or> CodeWindowSize E = CodeWindowSize E" by simp
  show ?thesis
    using True ReadBatch_count_zero [OF hd, of fuel now _ fin r w]
    by (simp add: window_frame_def decoded_def)
next
  case False
  have pl: "concat (map payloads fs) = map snd sps"
    unfolding assms(2) by (induction sps) auto
  have sh: "compressed_last fs"
    unfolding assms(2) by (induction sps) auto
  have wfs: "list_all (well_formed E) fs" using assms(3) by simp
  have K: "0 < length sps" using False by simp
  have hd: "CodeVersion E = CodeVersion E \<or> CodeWindowSize E = CodeWindowSize E" by simp
  have f1: "calls fs \<le> fuel" using assms(7) by simp
  have f2: "calls [CompressedFrame c fs] \<le> fuel" using assms(7) by simp
  have l1: "length (concat (map payloads fs)) = length sps" by (simp add: pl)
  have l2: "length (concat (map payloads [CompressedFrame c fs])) = length sps" by (simp add: pl)
  have s2: "compressed_last [CompressedFrame c fs]" using sh pl False by simp
  from ReadBatch_frames [OF assms(1) hd wfs sh l1 K assms(4,5,6) f1, of now rest fin]
  have plain: "decoded (ReadBatch fuel E now
            \<lparr>pending = window_frame E (length sps) @ encode_frames E fs @ rest, final = fin\<rparr> r w)
         = Some (Inr (Some (map snd sps)))"
    by (auto simp: decoded_def window_frame_def pl)
  from ReadBatch_frames [OF assms(1) hd assms(3) s2 l2 K assms(4,5,6) f2, of now rest fin]
  have "decoded (ReadBatch fuel E now
            \<lparr>pending = window_frame E (length sps) @ encode_frames E [CompressedFrame c fs] @ rest,
             final = fin\<rparr> r w)
         = Some (Inr (Some (map snd sps)))"
    by (auto simp: decoded_def window_frame_def pl simp del: encode_frame.simps)
  with plain False show ?thesis by simp
qed

theorem compressed_frame_same_as_data_frames_witness:
  "decoded (ReadBatch 6 lumberjack_v2 0
      \<lparr>pending = window_frame lumberjack_v2 2
         @ encode_frames lumberjack_v2
             [CompressedFrame (zlib_store (encode_frames lumberjack_v2 [DataFrame 1 a1, DataFrame 2 [0x7B, 0x7D]]))
                [DataFrame 1 a1, DataFrame 2 [0x7B, 0x7D]]]
         @ [0x32],
       final = ErrTimeout\<rparr> r0 w0)
   = decoded (ReadBatch 6 lumberjack_v2 0
      \<lparr>pending = window_frame lumberjack_v2 2
         @ encode_frames lumberjack_v2 [DataFrame 1 a1, DataFrame 2 [0x7B, 0x7D]] @ [0x32],
       final = ErrTimeout\<rparr> r0 w0)
   \<and> decoded (ReadBatch 6 lumberjack_v2 0
      \<lparr>pending = window_frame lumberjack_v2 2
         @ encode_frames lumberjack_v2
             [CompressedFrame (zlib_store (encode_frames lumberjack_v2 [DataFrame 1 a1, DataFrame 2 [0x7B, 0x7D]]))
                [DataFrame 1 a1, DataFrame 2 [0x7B, 0x7D]]]
         @ [0x32],
       final = ErrTimeout\<rparr> r0 w0)
     = Some (Inr (Some [a1, [0x7B, 0x7D]]))"
proof -
  let ?sps = "[(1, a1), (2, [0x7B, 0x7D])] :: (nat \<times> byte list) list"
  let ?fs = "[DataFrame 1 a1, DataFrame 2 [0x7B, 0x7D]]"
  let ?c = "zlib_store (encode_frames lumberjack_v2 ?fs)"
  have h1: "CodeJSONDataFrame lumberjack_v2 \<noteq> CodeCompressed lumberjack_v2" by simp
  have h2: "?fs = map (\<lambda>(seq, p). DataFrame seq p) ?sps" by simp
  have wf: "well_formed lumberjack_v2 (CompressedFrame ?c ?fs)"
    by (rule well_formed_stored) simp_all
  then have h3: "list_all (well_formed lumberjack_v2) [CompressedFrame ?c ?fs]" by simp
  have h4: "length ?sps < 4294967296" by simp
  have h6: "setDeadlineErr (conn r0) = None" by simp
  have h7: "calls ?fs + 3 \<le> 6" by simp
  have len: "length ?sps = 2" by simp
  have ms: "map snd ?sps = [a1, [0x7B, 0x7D]]" by simp
  have ne: "(?sps = []) = False" by simp
  show ?thesis
    using compressed_frame_same_as_data_frames [OF h1 h2 h3 h4 buf_ok_r0 h6 h7, of 0 "[0x32]" ErrTimeout]
    unfolding len ms ne if_False .
qed

section \<open>Claims on the certificate and on the decoder\<close>

text \<open>
  C5. Whenever \<open>ReadBatch\<close> returns a batch, it returns the same batch, with no error, for
  every other value \<open>vc\<close> of the verified chains of the connection (\<open>None\<close>: the
  connection is not a TLS connection), but for the certificate: that is the first
  certificate of the first chain when \<open>vc\<close> is one chain of two certificates, and absent in
  every other case.
\<close>

theorem client_certificate_attached:
  assumes "ReadBatch fuel E now inp r w = Some (Inr (Some b, inp'), r', w')"
  shows "ReadBatch fuel E now inp (r\<lparr>conn := (conn r)\<lparr>verifiedChains := vc\<rparr>\<rparr>) w
         = Some (Inr (Some (b\<lparr>ClientX509Cert :=
                               (case vc of
                                  Some [[leaf, issuer]] \<Rightarrow> Some leaf
                                | _ \<Rightarrow> None)\<rparr>), inp'),
                 r'\<lparr>conn := (conn r')\<lparr>verifiedChains := vc\<rparr>\<rparr>, w')"
proof -
  define f :: "reader \<Rightarrow> reader"
    where "f = (\<lambda>r. r\<lparr>conn := (conn r)\<lparr>verifiedChains := vc\<rparr>\<rparr>)"
  have f1: "\<And>r. buf (f r) = buf r" and f2: "\<And>r b. f (r\<lparr>buf := b\<rparr>) = (f r)\<lparr>buf := b\<rparr>"
    by (simp_all add: f_def)
  note re = readEvents_reader [of f, OF f1 f2]
  from assms obtain win inp1 c1 events w2 where
    rf: "readFull inp 6 = (win, None, inp1)"
    and hd: "win ! 0 = CodeVersion E \<or> win ! 1 = CodeWindowSize E"
    and K: "0 < BigEndian_Uint32 (drop 2 win)"
    and sd: "SetReadDeadline (snd (SetReadDeadline (conn r) None)) (Some (now + timeout r)) = (None, c1)"
    and ev: "readEvents fuel E inp1 [] (BigEndian_Uint32 (drop 2 win)) (r\<lparr>conn := c1\<rparr>) w
          = Some (Inr (events, inp'), r', w2)"
    and nb: "NewBatch events
           (case verifiedChains (conn r') of
              Some vchains \<Rightarrow> if length vchains = 1 \<and> length (vchains ! 0) = 2
                              then Some (vchains ! 0 ! 0) else None
            | None \<Rightarrow> None) w2 = (b, w')"
    unfolding ReadBatch_batch_iff by blast
  have sdc: "SetReadDeadline (c\<lparr>verifiedChains := vc\<rparr>) t
      = (fst (SetReadDeadline c t), (snd (SetReadDeadline c t))\<lparr>verifiedChains := vc\<rparr>)" for c t
    by (simp add: SetReadDeadline_def split: option.splits)
  have sd': "SetReadDeadline (snd (SetReadDeadline (conn (f r)) None)) (Some (now + timeout (f r)))
      = (None, c1\<lparr>verifiedChains := vc\<rparr>)"
    using sd by (simp add: f_def sdc)
  have "readEvents fuel E inp1 [] (BigEndian_Uint32 (drop 2 win)) (f (r\<lparr>conn := c1\<rparr>)) w
      = Some (Inr (events, inp'), f r', w2)"
    using re [of fuel E inp1 "[]" _ "r\<lparr>conn := c1\<rparr>" w] ev by simp
  then have ev': "readEvents fuel E inp1 [] (BigEndian_Uint32 (drop 2 win))
        ((f r)\<lparr>conn := c1\<lparr>verifiedChains := vc\<rparr>\<rparr>) w
      = Some (Inr (events, inp'), f r', w2)"
    by (simp add: f_def)
  have cert: "(case verifiedChains (conn (f r')) of
            Some vchains \<Rightarrow> if length vchains = 1 \<and> length (vchains ! 0) = 2
                            then Some (vchains ! 0 ! 0) else None
          | None \<Rightarrow> None)
       = (case vc of Some [[leaf, issuer]] \<Rightarrow> Some leaf | _ \<Rightarrow> None)"
    by (auto simp: f_def split: option.splits list.splits)
  have nb': "NewBatch events
       (case verifiedChains (conn (f r')) of
            Some vchains \<Rightarrow> if length vchains = 1 \<and> length (vchains ! 0) = 2
                            then Some (vchains ! 0 ! 0) else None
          | None \<Rightarrow> None) w2
      = (b\<lparr>ClientX509Cert := (case vc of Some [[leaf, issuer]] \<Rightarrow> Some leaf | _ \<Rightarrow> None)\<rparr>, w')"
    unfolding cert using nb by (auto simp: NewBatch_def)
  have "ReadBatch fuel E now inp (f r) w
      = Some (Inr (Some (b\<lparr>ClientX509Cert := (case vc of Some [[leaf, issuer]] \<Rightarrow> Some leaf | _ \<Rightarrow> None)\<rparr>),
                   inp'), f r', w')"
    unfolding ReadBatch_batch_iff using rf hd K sd' ev' nb' by blast
  then show ?thesis by (simp add: f_def)
qed

theorem client_certificate_attached_witness:
  "\<exists>b r' w'.
     ReadBatch 2 lumberjack_v2 0
       \<lparr>pending = [0x32, 0x57] @ PutUint32 1 @ encode_frames lumberjack_v2 [DataFrame 1 a1] @ [],
        final = EOF\<rparr>
       (r0\<lparr>conn := (conn r0)\<lparr>verifiedChains := Some [[Certificate 1, Certificate 2]]\<rparr>\<rparr>) w0
       = Some (Inr (Some b, \<lparr>pending = [], final = EOF\<rparr>), r', w')
     \<and> ClientX509Cert b = Some (Certificate 1)"
proof -
  have "\<exists>b r' w'.
      ReadBatch 2 lumberjack_v2 0
        \<lparr>pending = [0x32, 0x57] @ PutUint32 1 @ encode_frames lumberjack_v2 [DataFrame 1 a1] @ [],
         final = EOF\<rparr> r0 w0
        = Some (Inr (Some b, \<lparr>pending = [], final = EOF\<rparr>), r', w')
      \<and> map (deref w') (Events b) = concat (map payloads [DataFrame 1 a1])"
    by (rule ReadBatch_frames) simp_all
  then obtain b r' w' where
    rb: "ReadBatch 2 lumberjack_v2 0
        \<lparr>pending = [0x32, 0x57] @ PutUint32 1 @ encode_frames lumberjack_v2 [DataFrame 1 a1] @ [],
         final = EOF\<rparr> r0 w0
        = Some (Inr (Some b, \<lparr>pending = [], final = EOF\<rparr>), r', w')"
    by blast
  note t = client_certificate_attached [OF rb, of "Some [[Certificate 1, Certificate 2]]"]
  show ?thesis
    apply (rule exI [of _ "b\<lparr>ClientX509Cert := Some (Certificate 1)\<rparr>"])
    apply (rule exI [of _ "r'\<lparr>conn := (conn r')\<lparr>verifiedChains := Some [[Certificate 1, Certificate 2]]\<rparr>\<rparr>"])
    apply (rule exI [of _ w'])
    using t apply simp
    done
qed

text \<open>
  C10. The decoder given to \<open>newReader\<close> has no part in what \<open>ReadBatch\<close> does. With any
  other decoder in its place the call returns the same result (the same error or the same
  batch), the same source and the same heap; the reader it leaves differs in that field
  alone. And whatever the decoder is, also one that refuses every payload, the events of
  the batch read from a window are the payloads of its frames, byte for byte as they are
  on the wire, whatever those bytes are.
\<close>

theorem decoder_never_used:
  "ReadBatch fuel E now inp (r\<lparr>decoder := d\<rparr>) w
     = map_option (\<lambda>(res, r', w'). (res, r'\<lparr>decoder := d\<rparr>, w')) (ReadBatch fuel E now inp r w)
   \<and> (CodeJSONDataFrame E \<noteq> CodeCompressed E
        \<and> list_all (well_formed E) fs \<and> compressed_last fs
        \<and> length (concat (map payloads fs)) = K \<and> 0 < K \<and> K < 4294967296
        \<and> buf_ok r w \<and> setDeadlineErr (conn r) = None \<and> calls fs \<le> fuel
        \<and> inp = \<lparr>pending = window_frame E K @ encode_frames E fs @ rest, final = fin\<rparr>
      \<longrightarrow> decoded (ReadBatch fuel E now inp (r\<lparr>decoder := d\<rparr>) w)
            = Some (Inr (Some (concat (map payloads fs)))))"
proof (intro conjI impI)
  have re: "readEvents fuel E inp1 evs cap ((r1\<lparr>decoder := d\<rparr>)\<lparr>conn := c\<rparr>) w
      = map_option (\<lambda>(res, r', w'). (res, r'\<lparr>decoder := d\<rparr>, w'))
          (readEvents fuel E inp1 evs cap (r1\<lparr>conn := c\<rparr>) w)"
    for inp1 evs cap c and r1 :: reader
    unfolding decoder_conn_commute [symmetric]
    by (rule readEvents_reader [of "\<lambda>r. r\<lparr>decoder := d\<rparr>"]) simp_all
  show "ReadBatch fuel E now inp (r\<lparr>decoder := d\<rparr>) w
     = map_option (\<lambda>(res, r', w'). (res, r'\<lparr>decoder := d\<rparr>, w')) (ReadBatch fuel E now inp r w)"
    unfolding ReadBatch_def Let_def
    by (simp add: re NewBatch_def decoder_conn_commute split: prod.splits option.splits sum.splits)
next
  assume a: "CodeJSONDataFrame E \<noteq> CodeCompressed E
        \<and> list_all (well_formed E) fs \<and> compressed_last fs
        \<and> length (concat (map payloads fs)) = K \<and> 0 < K \<and> K < 4294967296
        \<and> buf_ok r w \<and> setDeadlineErr (conn r) = None \<and> calls fs \<le> fuel
        \<and> inp = \<lparr>pending = window_frame E K @ encode_frames E fs @ rest, final = fin\<rparr>"
  have ok: "buf_ok (r\<lparr>decoder := d\<rparr>) w" using a by (simp add: buf_ok_def)
  have dl: "setDeadlineErr (conn (r\<lparr>decoder := d\<rparr>)) = None" using a by simp
  have hd: "CodeVersion E = CodeVersion E \<or> CodeWindowSize E = CodeWindowSize E" by simp
  from a have jc: "CodeJSONDataFrame E \<noteq> CodeCompressed E" and wf: "list_all (well_formed E) fs"
    and cl: "compressed_last fs" and K: "length (concat (map payloads fs)) = K" "0 < K" "K < 4294967296"
    and fu: "calls fs \<le> fuel"
    and inp: "inp = \<lparr>pending = window_frame E K @ encode_frames E fs @ rest, final = fin\<rparr>"
    by simp_all
  from ReadBatch_frames [OF jc hd wf cl K ok dl fu, of now rest fin]
  show "decoded (ReadBatch fuel E now inp (r\<lparr>decoder := d\<rparr>) w)
      = Some (Inr (Some (concat (map payloads fs))))"
    unfolding inp by (auto simp: decoded_def window_frame_def)
qed

text \<open>
  A decoder that refuses every payload, and a window of two payloads that are not JSON.
\<close>

theorem decoder_never_used_witness:
  "decoded (ReadBatch 3 lumberjack_v2 0
      \<lparr>pending = window_frame lumberjack_v2 2
         @ encode_frames lumberjack_v2 [DataFrame 1 [0xFF, 0x00, 0x7B], DataFrame 2 [0x7D]] @ [],
       final = EOF\<rparr>
      (r0\<lparr>decoder := \<lambda>b. Some (ErrOther 7)\<rparr>) w0)
   = Some (Inr (Some [[0xFF, 0x00, 0x7B], [0x7D]]))"
proof -
  let ?fs = "[DataFrame 1 [0xFF, 0x00, 0x7B], DataFrame 2 [0x7D]]"
  let ?inp = "\<lparr>pending = window_frame lumberjack_v2 2 @ encode_frames lumberjack_v2 ?fs @ [],
       final = EOF\<rparr>"
  have h: "CodeJSONDataFrame lumberjack_v2 \<noteq> CodeCompressed lumberjack_v2
        \<and> list_all (well_formed lumberjack_v2) ?fs \<and> compressed_last ?fs
        \<and> length (concat (map payloads ?fs)) = 2 \<and> 0 < (2::nat) \<and> (2::nat) < 4294967296
        \<and> buf_ok r0 w0 \<and> setDeadlineErr (conn r0) = None \<and> calls ?fs \<le> 3
        \<and> ?inp = \<lparr>pending = window_frame lumberjack_v2 2 @ encode_frames lumberjack_v2 ?fs @ [],
              final = EOF\<rparr>"
    by simp
  have c: "concat (map payloads ?fs) = [[0xFF, 0x00, 0x7B], [0x7D]]" by simp
  from decoder_never_used [where E = lumberjack_v2 and fs = ?fs and K = 2 and r = r0 and w = w0
      and fuel = 3 and inp = ?inp and rest = "[]" and fin = EOF and now = 0
      and d = "\<lambda>b. Some (ErrOther 7)", THEN conjunct2, rule_format, OF h]
  show ?thesis unfolding c .
qed

section \<open>Claims on compressed frames and on the buffer\<close>

text \<open>
  C7, as the code has it. When \<open>readCompressed\<close> returns without an error and its source
  holds the four bytes of the length \<open>N\<close> and \<open>N\<close> bytes behind them, it leaves the source
  exactly \<open>4 + N\<close> bytes further on: whatever the zlib reader left unread of the \<open>N\<close> bytes is
  consumed before the outer loop goes on.
\<close>

theorem compressed_frame_consumes_its_length:
  assumes "readCompressed fuel E inp events cap r w = Some (Inr (events', inp'), r', w')"
    and "4 + BigEndian_Uint32 (take 4 (pending inp)) \<le> length (pending inp)"
  shows "pending inp' = drop (4 + BigEndian_Uint32 (take 4 (pending inp))) (pending inp)
         \<and> final inp' = final inp"
proof (cases fuel)
  case 0
  with assms show ?thesis by simp
next
  case (Suc n)
  let ?n = "BigEndian_Uint32 (take 4 (pending inp))"
  let ?inp1 = "inp\<lparr>pending := drop 4 (pending inp)\<rparr>"
  have rf: "readFull inp 4 = (take 4 (pending inp), None, ?inp1)"
    using assms(2) by (simp add: readFull_def)
  have "consume_final \<lparr>R = ?inp1, N = ?n\<rparr> = Inr inp'"
    using assms(1) unfolding Suc
    by (simp add: rf Let_def split: sum.splits option.splits prod.splits)
  moreover have "?n \<le> length (pending ?inp1)" using assms(2) by simp
  ultimately have "inp' = ?inp1\<lparr>pending := drop ?n (pending ?inp1)\<rparr>"
    by (simp add: consume_final_eq)
  then show ?thesis by (simp add: add.commute)
qed

theorem compressed_frame_consumes_its_length_witness:
  "\<exists>events' inp' r' w'.
     readCompressed 3 lumberjack_v2
       \<lparr>pending = PutUint32 28 @ zlib_store (encode_frames lumberjack_v2 [DataFrame 1 a1]) @ [0x32, 0x4A],
        final = EOF\<rparr> [] 1 r0 w0
       = Some (Inr (events', inp'), r', w')
     \<and> pending inp' = [0x32, 0x4A] \<and> final inp' = EOF"
proof -
  let ?c = "zlib_store (encode_frames lumberjack_v2 [DataFrame 1 a1])"
  let ?inp = "\<lparr>pending = PutUint32 (length ?c) @ ?c @ [0x32, 0x4A], final = EOF\<rparr>"
  have wf: "well_formed lumberjack_v2 (CompressedFrame ?c [DataFrame 1 a1])"
    by (rule well_formed_stored) simp_all
  have "\<exists>new r' w'.
      readCompressed 3 lumberjack_v2 ?inp [] 1 r0 w0
        = Some (Inr ([] @ new, \<lparr>pending = [0x32, 0x4A], final = EOF\<rparr>), r', w')
      \<and> map (deref w') new = concat (map payloads [DataFrame 1 a1])"
    by (rule readCompressed_frame [OF _ wf]) simp_all
  then obtain new r' w' where
    rc: "readCompressed 3 lumberjack_v2 ?inp [] 1 r0 w0
        = Some (Inr ([] @ new, \<lparr>pending = [0x32, 0x4A], final = EOF\<rparr>), r', w')"
    by blast
  have n: "BigEndian_Uint32 (take 4 (pending ?inp)) = 28"
    using Uint32_PutUint32 [of 28 "[]"] by simp
  have "4 + BigEndian_Uint32 (take 4 (pending ?inp)) \<le> length (pending ?inp)"
    unfolding n by simp
  from compressed_frame_consumes_its_length [OF rc this] rc
  show ?thesis by simp
qed

text \<open>
  C7, as the spec states it, fails when the source ends before the declared length: the
  frame declares 100 compressed bytes, the source ends, with \<open>EOF\<close>, after the 28 bytes of a
  complete zlib stream. \<open>readCompressed\<close> returns its event and no error, having consumed 32
  bytes, not 104: the loop that consumes the final bytes takes the \<open>EOF\<close> of the source for
  the end of the frame (with any larger bound on the calls as well, by
  \<open>readCompressed_more_fuel\<close>).
\<close>

theorem truncated_compressed_frame_accepted:
  "left_over (readCompressed (Suc (Suc (Suc 0))) lumberjack_v2
      \<lparr>pending = PutUint32 100 @ zlib_store (encode_frames lumberjack_v2 [DataFrame 1 a1]),
       final = EOF\<rparr> [] 1 r0 w0) = Some (Inr [])
   \<and> length (PutUint32 100 @ zlib_store (encode_frames lumberjack_v2 [DataFrame 1 a1])) = 32
   \<and> BigEndian_Uint32 (take 4 (PutUint32 100 @ zlib_store (encode_frames lumberjack_v2 [DataFrame 1 a1])))
     = 100"
proof -
  define d where "d = encode_frames lumberjack_v2 [DataFrame 1 a1]"
  define c where "c = zlib_store d"
  have ld: "length d = 17" by (simp add: d_def)
  have lc: "length c = 28" by (simp add: c_def ld)
  obtain e r2 w2 where
    rj: "readJSONEvent \<lparr>pending = PutUint32 1 @ PutUint32 (length a1) @ a1 @ [], final = EOF\<rparr> r0 w0
          = (Inr (e, \<lparr>pending = [], final = EOF\<rparr>), r2, w2)"
    using readJSONEvent_decodes [OF buf_ok_r0, of a1 1 "[]" EOF] by auto
  have inner: "readEvents (Suc (Suc 0)) lumberjack_v2 \<lparr>pending = d, final = EOF\<rparr> [] 1 r0 w0
      = Some (Inr ([e], \<lparr>pending = [], final = EOF\<rparr>), r2, w2)"
    using rj by (simp add: d_def readFull_def)
  have nr: "zlib_NewReader lumberjack_v2 \<lparr>pending = c, final = EOF\<rparr> = Inr \<lparr>pending = d, final = EOF\<rparr>"
    using zlib_store_inflates [of d] ld by (simp add: c_def lumberjack_v2_def)
  have cl: "zlib_Close lumberjack_v2 \<lparr>pending = c, final = EOF\<rparr> k = None" for k
    using zlib_store_Close [of d k] ld by (simp add: c_def lumberjack_v2_def)
  have lv: "limit_view \<lparr>R = \<lparr>pending = c, final = EOF\<rparr>, N = 100\<rparr> = \<lparr>pending = c, final = EOF\<rparr>"
    by (simp add: limit_view_def lc)
  have cf: "consume_final \<lparr>R = \<lparr>pending = c, final = EOF\<rparr>, N = 100\<rparr> = Inr \<lparr>pending = [], final = EOF\<rparr>"
    by (simp add: consume_final_eq lc)
  have rf4: "readFull \<lparr>pending = PutUint32 100 @ c, final = EOF\<rparr> 4
      = (PutUint32 100, None, \<lparr>pending = c, final = EOF\<rparr>)"
    by (rule readFull_append) simp
  have sz: "BigEndian_Uint32 (PutUint32 100) = 100"
    using Uint32_PutUint32 [of 100 "[]"] by simp
  have "readCompressed (Suc (Suc (Suc 0))) lumberjack_v2 \<lparr>pending = PutUint32 100 @ c, final = EOF\<rparr>
        [] 1 r0 w0
      = Some (Inr ([e], \<lparr>pending = [], final = EOF\<rparr>), r2, w2)"
    using rf4 sz lv nr inner cl cf by (simp add: Let_def del: readEvents.simps)
  then have "left_over (readCompressed (Suc (Suc (Suc 0))) lumberjack_v2
      \<lparr>pending = PutUint32 100 @ c, final = EOF\<rparr> [] 1 r0 w0) = Some (Inr [])"
    by (simp add: left_over_def)
  moreover have "BigEndian_Uint32 (take 4 (PutUint32 100 @ c)) = 100" using sz by simp
  ultimately show ?thesis using lc unfolding c_def d_def by simp
qed

text \<open>
  C8. Take a reader whose buffer is in order, and the loop that reads the frames.

  Over any run of the loop, also one that ends in an error: the buffer stays in order and
  never gets shorter; every slice that was there before and is not on the buffer's array
  (the payloads handed out earlier are such slices) keeps its bytes and stays off the
  buffer's array; the events the run returns are the events it was given followed by new
  ones, and each new event is an array of its own that the run added to the heap, is not
  the buffer's array, and is no longer than the buffer is at the end.

  When the source starts with frames that bring as many payloads as are missing, the loop
  returns, and at the end: the new events hold the payloads of the frames, byte for byte
  and in the order of the wire, though the buffer was written over by each later payload;
  the length of the buffer is the greatest of its length before and of the lengths of the
  payloads; and the buffer starts with the bytes of the last payload, the bytes the last
  event was copied from (\<open>last ([] # ps)\<close> is the last payload of \<open>ps\<close>, and the empty
  list when there is none).
\<close>

theorem buffer_grows_and_payloads_are_copies:
  assumes "buf_ok r w"
  shows "(readEvents fuel E inp events cap r w = Some (res, r', w') \<longrightarrow>
            buf_ok r' w' \<and> len (buf r) \<le> len (buf r')
          \<and> (\<forall>s. arr s < length (heap w) \<and> arr s \<noteq> arr (buf r) \<longrightarrow>
                deref w' s = deref w s \<and> arr s < length (heap w') \<and> arr s \<noteq> arr (buf r'))
          \<and> (\<forall>events' inp'. res = Inr (events', inp') \<longrightarrow>
                take (length events) events' = events
              \<and> (\<forall>e \<in> set (drop (length events) events').
                    len e \<le> len (buf r') \<and> length (heap w) \<le> arr e \<and> arr e < length (heap w')
                  \<and> arr e \<noteq> arr (buf r'))
              \<and> distinct (map arr (drop (length events) events'))))
       \<and> (CodeJSONDataFrame E \<noteq> CodeCompressed E
            \<and> list_all (well_formed E) fs \<and> compressed_last fs
            \<and> length events + length (concat (map payloads fs)) = cap \<and> calls fs \<le> fuel
          \<longrightarrow> (\<exists>new r2 w2.
                readEvents fuel E \<lparr>pending = encode_frames E fs @ rest, final = fin\<rparr> events cap r w
                  = Some (Inr (events @ new, \<lparr>pending = rest, final = fin\<rparr>), r2, w2)
              \<and> map (deref w2) new = concat (map payloads fs)
              \<and> len (buf r2) = Max (insert (len (buf r)) (length ` set (concat (map payloads fs))))
              \<and> take (length (last ([] # concat (map payloads fs)))) (heap w2 ! arr (buf r2))
                  = last ([] # concat (map payloads fs))))"
proof (intro conjI impI)
  assume run: "readEvents fuel E inp events cap r w = Some (res, r', w')"
  have p: "post r w events res r' w'" using readEvents_post [OF assms run] .
  then have g: "grows r w r' w'" by (rule post_grows)
  show "buf_ok r' w'" using g by (simp add: grows_def)
  show "len (buf r) \<le> len (buf r')" using g by (simp add: grows_def)
  show "\<forall>s. arr s < length (heap w) \<and> arr s \<noteq> arr (buf r) \<longrightarrow>
          deref w' s = deref w s \<and> arr s < length (heap w') \<and> arr s \<noteq> arr (buf r')"
    using g grows_keeps [OF g] by (auto simp: grows_def)
  show "\<forall>events' inp'. res = Inr (events', inp') \<longrightarrow>
          take (length events) events' = events
        \<and> (\<forall>e \<in> set (drop (length events) events').
              len e \<le> len (buf r') \<and> length (heap w) \<le> arr e \<and> arr e < length (heap w')
            \<and> arr e \<noteq> arr (buf r'))
        \<and> distinct (map arr (drop (length events) events'))"
    using p by (auto simp: post_def fresh_def)
next
  assume h: "CodeJSONDataFrame E \<noteq> CodeCompressed E
      \<and> list_all (well_formed E) fs \<and> compressed_last fs
      \<and> length events + length (concat (map payloads fs)) = cap \<and> calls fs \<le> fuel"
  have q: "take (length ([] :: byte list)) (heap w ! arr (buf r)) = []" by simp
  from h have jc: "CodeJSONDataFrame E \<noteq> CodeCompressed E"
    and wf: "list_all (well_formed E) fs" and cl: "compressed_last fs"
    and sum: "length events + length (concat (map payloads fs)) = cap"
    and fu: "calls fs \<le> fuel" by simp_all
  show "\<exists>new r2 w2.
          readEvents fuel E \<lparr>pending = encode_frames E fs @ rest, final = fin\<rparr> events cap r w
            = Some (Inr (events @ new, \<lparr>pending = rest, final = fin\<rparr>), r2, w2)
        \<and> map (deref w2) new = concat (map payloads fs)
        \<and> len (buf r2) = Max (insert (len (buf r)) (length ` set (concat (map payloads fs))))
        \<and> take (length (last ([] # concat (map payloads fs)))) (heap w2 ! arr (buf r2))
            = last ([] # concat (map payloads fs))"
    by (rule readEvents_frames_buffer [OF jc wf cl assms sum fu q])
qed

text \<open>
  For instance the reader made by \<open>newReader\<close>, whose buffer has length 0, reads the payload
  \<open>{"a":1}\<close> of 7 bytes and then the payload \<open>{}\<close> of 2 bytes: the buffer ends with length
  7 and starts with \<open>{}\<close>, and the first event is still \<open>{"a":1}\<close>.
\<close>

theorem buffer_grows_and_payloads_are_copies_witness:
  "\<exists>new r2 w2.
     readEvents 3 lumberjack_v2
       \<lparr>pending = encode_frames lumberjack_v2 [DataFrame 1 a1, DataFrame 2 [0x7B, 0x7D]] @ [],
        final = EOF\<rparr> [] 2 r0 w0
       = Some (Inr (new, \<lparr>pending = [], final = EOF\<rparr>), r2, w2)
     \<and> map (deref w2) new = [a1, [0x7B, 0x7D]]
     \<and> len (buf r0) = 0 \<and> len (buf r2) = 7
     \<and> take 2 (heap w2 ! arr (buf r2)) = [0x7B, 0x7D]"
proof -
  have h: "CodeJSONDataFrame lumberjack_v2 \<noteq> CodeCompressed lumberjack_v2
      \<and> list_all (well_formed lumberjack_v2) [DataFrame 1 a1, DataFrame 2 [0x7B, 0x7D]]
      \<and> compressed_last [DataFrame 1 a1, DataFrame 2 [0x7B, 0x7D]]
      \<and> length ([] :: slice list) + length (concat (map payloads [DataFrame 1 a1, DataFrame 2 [0x7B, 0x7D]])) = 2
      \<and> calls [DataFrame 1 a1, DataFrame 2 [0x7B, 0x7D]] \<le> 3"
    by (simp add: length_a1)
  have l0: "len (buf r0) = 0" by (simp add: r0_def newReader_def)
  have m: "Max (insert (len (buf r0)) (length ` set [a1, [0x7B, 0x7D :: byte]])) = 7"
    by (simp add: l0 length_a1)
  have c: "concat (map payloads [DataFrame 1 a1, DataFrame 2 [0x7B, 0x7D]]) = [a1, [0x7B, 0x7D]]"
    by simp
  from buffer_grows_and_payloads_are_copies [OF buf_ok_r0, where E = lumberjack_v2 and fuel = 3 and cap = 2
      and events = "[]" and fs = "[DataFrame 1 a1, DataFrame 2 [0x7B, 0x7D]]"
      and rest = "[]" and fin = EOF, THEN conjunct2, rule_format, OF h]
  obtain new r2 w2 where
    re: "readEvents 3 lumberjack_v2
       \<lparr>pending = encode_frames lumberjack_v2 [DataFrame 1 a1, DataFrame 2 [0x7B, 0x7D]] @ [],
        final = EOF\<rparr> [] 2 r0 w0
       = Some (Inr ([] @ new, \<lparr>pending = [], final = EOF\<rparr>), r2, w2)"
    and d: "map (deref w2) new = [a1, [0x7B, 0x7D]]"
    and l: "len (buf r2) = 7"
    and b: "take (length (last ([] # [a1, [0x7B, 0x7D :: byte]]))) (heap w2 ! arr (buf r2))
              = last ([] # [a1, [0x7B, 0x7D]])"
    unfolding c m by (elim exE conjE) (rule that)
  have b2: "take 2 (heap w2 ! arr (buf r2)) = [0x7B, 0x7D]"
    using b by (simp add: numeral_2_eq_2)
  have re2: "readEvents 3 lumberjack_v2
       \<lparr>pending = encode_frames lumberjack_v2 [DataFrame 1 a1, DataFrame 2 [0x7B, 0x7D]] @ [],
        final = EOF\<rparr> [] 2 r0 w0
       = Some (Inr (new, \<lparr>pending = [], final = EOF\<rparr>), r2, w2)"
    using re unfolding append_Nil .
  show ?thesis by (intro exI conjI) (rule re2 d l0 l b2)+
qed

section \<open>Claims on the read deadline\<close>

text \<open>
  C9. The read deadline is a field of the connection, and a peer that sends nothing more in
  time is a source that has no bytes left and whose \<open>Read\<close> returns the timeout error. On a
  connection that takes deadlines: whatever deadline the connection had, \<open>ReadBatch\<close> reads
  the window-size frame with none (when the frame does not arrive in full, the connection
  is left with no deadline); behind a window-size frame of count \<open>K\<close> every return of
  \<open>ReadBatch\<close>, with a batch or with an error, leaves the connection with no deadline when
  \<open>K = 0\<close> and with the one deadline \<open>now + timeout\<close> when \<open>K\<close> is not 0 (reading the events
  never sets another); and when nothing arrives behind a window-size frame of a count that
  is not 0, \<open>ReadBatch\<close> returns the timeout error.
\<close>

theorem read_deadline_cleared_then_set_once:
  assumes "setDeadlineErr (conn r) = None" and "K < 4294967296"
  shows "(length (pending inp) < 6 \<and> ReadBatch fuel E now inp r w = Some (res, r', w')
            \<longrightarrow> readDeadline (conn r') = None)
       \<and> (pending inp = window_frame E K @ rest \<and> ReadBatch fuel E now inp r w = Some (res, r', w')
            \<longrightarrow> readDeadline (conn r') = (if K = 0 then None else Some (now + timeout r)))
       \<and> (pending inp = window_frame E K \<and> K \<noteq> 0 \<and> final inp = ErrTimeout \<and> 0 < fuel
            \<longrightarrow> ReadBatch fuel E now inp r w
                = Some (Inl ErrTimeout,
                        r\<lparr>conn := (conn r)\<lparr>readDeadline := Some (now + timeout r)\<rparr>\<rparr>, w))"
proof (intro conjI impI)
  assume "length (pending inp) < 6 \<and> ReadBatch fuel E now inp r w = Some (res, r', w')"
  then show "readDeadline (conn r') = None"
    using assms(1) by (auto simp: ReadBatch_def readFull_def SetReadDeadline_def Let_def)
next
  assume a: "pending inp = window_frame E K @ rest \<and> ReadBatch fuel E now inp r w = Some (res, r', w')"
  define inp1 where "inp1 = inp\<lparr>pending := rest\<rparr>"
  define c1 where "c1 = (conn r)\<lparr>readDeadline := Some (now + timeout r)\<rparr>"
  have rf: "readFull inp 6 = (window_frame E K, None, inp1)"
    using a by (simp add: readFull_def window_frame_def inp1_def)
  have cnt: "BigEndian_Uint32 (drop 2 (window_frame E K)) = K"
    using Uint32_PutUint32 [OF assms(2), of "[]"] by (simp add: window_frame_def)
  have hd: "\<not> (window_frame E K ! 0 \<noteq> CodeVersion E \<and> window_frame E K ! 1 \<noteq> CodeWindowSize E)"
    by (simp add: window_frame_def)
  show "readDeadline (conn r') = (if K = 0 then None else Some (now + timeout r))"
  proof (cases "K = 0")
    case True
    then show ?thesis
      using a assms(1) unfolding ReadBatch_def Let_def rf prod.case option.case cnt
      by (auto simp: window_frame_def SetReadDeadline_def)
  next
    case False
    have rb: "(case readEvents fuel E inp1 [] K (r\<lparr>conn := c1\<rparr>) w of
               None \<Rightarrow> None
             | Some (Inl err, r2, w2) \<Rightarrow> Some (Inl err, r2, w2)
             | Some (Inr (events, inp2), r2, w2) \<Rightarrow>
                 let clientX509Cert =
                       (case verifiedChains (conn r2) of
                          Some vchains \<Rightarrow>
                            if length vchains = 1 \<and> length (vchains ! 0) = 2
                            then Some (vchains ! 0 ! 0) else None
                        | None \<Rightarrow> None);
                     (b, w3) = NewBatch events clientX509Cert w2
                 in Some (Inr (Some b, inp2), r2, w3)) = Some (res, r', w')"
      using a assms(1) False unfolding ReadBatch_def Let_def rf prod.case option.case cnt
      by (simp add: window_frame_def SetReadDeadline_def c1_def)
    then obtain x w2 where re: "readEvents fuel E inp1 [] K (r\<lparr>conn := c1\<rparr>) w = Some (x, r', w2)"
      by (auto simp: Let_def split: option.splits sum.splits prod.splits)
    have "conn r' = c1" using readEvents_keeps_fields [OF re] by simp
    then show ?thesis using False by (simp add: c1_def)
  qed
next
  assume a: "pending inp = window_frame E K \<and> K \<noteq> 0 \<and> final inp = ErrTimeout \<and> 0 < fuel"
  define inp1 where "inp1 = inp\<lparr>pending := []\<rparr>"
  have rf: "readFull inp 6 = (window_frame E K, None, inp1)"
    using a by (simp add: readFull_def window_frame_def inp1_def)
  have cnt: "BigEndian_Uint32 (drop 2 (window_frame E K)) = K"
    using Uint32_PutUint32 [OF assms(2), of "[]"] by (simp add: window_frame_def)
  have hd: "\<not> (window_frame E K ! 0 \<noteq> CodeVersion E \<and> window_frame E K ! 1 \<noteq> CodeWindowSize E)"
    by (simp add: window_frame_def)
  obtain n where n: "fuel = Suc n" using a by (cases fuel) auto
  have re: "readEvents fuel E inp1 [] K r2 w = Some (Inl ErrTimeout, r2, w)" for r2
    using a unfolding n by (simp add: readFull_def inp1_def)
  show "ReadBatch fuel E now inp r w
      = Some (Inl ErrTimeout, r\<lparr>conn := (conn r)\<lparr>readDeadline := Some (now + timeout r)\<rparr>\<rparr>, w)"
    using a assms(1) unfolding ReadBatch_def Let_def rf prod.case option.case cnt
    by (simp add: window_frame_def SetReadDeadline_def re del: readEvents.simps)
qed

text \<open>
  A connection that comes with a deadline of 5; the per-batch timeout is 30, the time is
  100. A heartbeat leaves it with no deadline; behind a window of two events of which
  nothing arrives, \<open>ReadBatch\<close> returns the timeout error and the deadline is 130.
\<close>

theorem read_deadline_cleared_then_set_once_witness:
  "ReadBatch 1 lumberjack_v2 100 \<lparr>pending = window_frame lumberjack_v2 2, final = ErrTimeout\<rparr>
      (r0\<lparr>conn := tcp\<lparr>readDeadline := Some 5\<rparr>\<rparr>) w0
     = Some (Inl ErrTimeout, r0\<lparr>conn := tcp\<lparr>readDeadline := Some 130\<rparr>\<rparr>, w0)
   \<and> ReadBatch 1 lumberjack_v2 100 \<lparr>pending = window_frame lumberjack_v2 0, final = ErrTimeout\<rparr>
      (r0\<lparr>conn := tcp\<lparr>readDeadline := Some 5\<rparr>\<rparr>) w0
     = Some (Inr (None, \<lparr>pending = [], final = ErrTimeout\<rparr>), r0\<lparr>conn := tcp\<rparr>, w0)"
proof -
  let ?r = "r0\<lparr>conn := tcp\<lparr>readDeadline := Some 5\<rparr>\<rparr>"
  let ?inp = "\<lparr>pending = window_frame lumberjack_v2 2, final = ErrTimeout\<rparr>"
  have h1: "setDeadlineErr (conn ?r) = None" by simp
  have h2: "(2::nat) < 4294967296" by simp
  have t: "ReadBatch 1 lumberjack_v2 100 ?inp ?r w0
     = Some (Inl ErrTimeout, ?r\<lparr>conn := (conn ?r)\<lparr>readDeadline := Some (100 + timeout ?r)\<rparr>\<rparr>, w0)"
    using read_deadline_cleared_then_set_once
      [OF h1 h2, where inp = ?inp and fuel = 1 and E = lumberjack_v2 and now = 100 and w = w0]
    by simp
  have hb: "ReadBatch 1 lumberjack_v2 100 \<lparr>pending = window_frame lumberjack_v2 0, final = ErrTimeout\<rparr>
      ?r w0 = Some (Inr (None, \<lparr>pending = [], final = ErrTimeout\<rparr>), r0\<lparr>conn := tcp\<rparr>, w0)"
    using ReadBatch_count_zero [of "CodeVersion lumberjack_v2" lumberjack_v2 "CodeWindowSize lumberjack_v2"
        1 100 "[]" ErrTimeout ?r w0]
    by (simp add: window_frame_def SetReadDeadline_def tcp_def)
  show ?thesis using t hb by simp
qed

section \<open>Claims on the acknowledgement\<close>

text \<open>
  C6. Take a batch made by \<open>NewBatch\<close>, and let \<open>ACK\<close> be called, without a panic, on any
  batches but this one. Then a receive from the channel of \<open>Await\<close> does not complete. A
  call of \<open>ACK\<close> on the batch succeeds, and from then on the receive completes, whatever
  batches are acknowledged later; a second call of \<open>ACK\<close> on the batch panics.
\<close>

theorem ack_once_then_await_completes:
  assumes "NewBatch evts crt wi = (b, w)"
    and "acks others w = Inr w1" and "\<forall>b' \<in> set others. ack b' \<noteq> ack b"
  shows "\<not> completes w1 (Await b)
     \<and> (\<exists>w2. ACK b w1 = Inr w2 \<and> completes w2 (Await b)
            \<and> ACK b w2 = Inl CloseOfClosedChannel
            \<and> (\<forall>more w3. acks more w2 = Inr w3 \<longrightarrow> completes w3 (Await b)))"
proof -
  have b: "ack b = length (chans wi)" "chans w = chans wi @ [Open]"
    using assms(1) by (auto simp: NewBatch_def)
  have n0: "\<not> completes w (ack b)" "ack b < length (chans w)"
    by (simp_all add: completes_def b)
  have n1: "\<not> completes w1 (ack b)" "ack b < length (chans w1)"
    using acks_others [OF assms(2,3)] n0 by simp_all
  then have op: "chans w1 ! ack b = Open"
    by (cases "chans w1 ! ack b") (simp_all add: completes_def)
  define w2 where "w2 = w1\<lparr>chans := (chans w1)[ack b := Closed]\<rparr>"
  have a1: "ACK b w1 = Inr w2" using n1(2) op by (simp add: ACK_def w2_def)
  have c2: "completes w2 (ack b)" using n1(2) by (simp add: completes_def w2_def)
  have a2: "ACK b w2 = Inl CloseOfClosedChannel"
    using n1(2) by (simp add: ACK_def w2_def)
  have "completes w3 (ack b)" if "acks more w2 = Inr w3" for more w3
    using acks_keep [OF that c2] .
  then show ?thesis using n1(1) a1 c2 a2 by (auto simp: Await_def)
qed

text \<open>
  Two batches: the first is acknowledged, the second, made by \<open>NewBatch\<close>, is not yet.
\<close>

theorem ack_once_then_await_completes_witness:
  "\<not> completes \<lparr>heap = [], chans = [Closed, Open]\<rparr>
       (Await \<lparr>Events = [], ack = 1, ClientX509Cert = None\<rparr>)
   \<and> (\<exists>w2. ACK \<lparr>Events = [], ack = 1, ClientX509Cert = None\<rparr>
                \<lparr>heap = [], chans = [Closed, Open]\<rparr> = Inr w2
          \<and> completes w2 (Await \<lparr>Events = [], ack = 1, ClientX509Cert = None\<rparr>)
          \<and> ACK \<lparr>Events = [], ack = 1, ClientX509Cert = None\<rparr> w2 = Inl CloseOfClosedChannel)"
proof -
  let ?b = "\<lparr>Events = [], ack = 1, ClientX509Cert = None\<rparr>"
  let ?other = "\<lparr>Events = [], ack = 0, ClientX509Cert = None\<rparr>"
  have h1: "NewBatch [] None \<lparr>heap = [], chans = [Open]\<rparr> = (?b, \<lparr>heap = [], chans = [Open, Open]\<rparr>)"
    by (simp add: NewBatch_def)
  have h2: "acks [?other] \<lparr>heap = [], chans = [Open, Open]\<rparr> = Inr \<lparr>heap = [], chans = [Closed, Open]\<rparr>"
    by (simp add: ACK_def)
  have h3: "\<forall>b' \<in> set [?other]. ack b' \<noteq> ack ?b" by simp
  from ack_once_then_await_completes [OF h1 h2 h3]
  show ?thesis by blast
qed

end
